theory Spec2Isabelle
  imports Main "HOL-Library.Word" "HOL-Library.AList" "HOL-Library.Monad_Syntax" "HOL-Library.Sublist"
begin

unbundle bit_operations_syntax

section \<open>The child side of process launch: childproc.c\<close>

text \<open>
  The functions of \<^verbatim>\<open>src/java.base/unix/native/libjava/childproc.c\<close> are embedded
  as HOL functions over an explicit state of the process, the record \<open>world\<close>. The
  system calls the file uses are not part of the file; they are modelled below after
  POSIX, with every outcome the kernel decides (an interrupted call, a short transfer,
  the result of an exec, the result of chdir) read from an oracle stored in the state, so
  that a statement about all states is a statement about all runs.

  A call of the exec family that succeeds never returns: the functions of the exec stage
  return \<open>Inl\<close> of the terminal outcome in that case and \<open>Inr\<close> of the state they return
  with otherwise. The three loops that retry on \<open>EINTR\<close> have no bound in the source; they
  are partial functions in the option monad, \<open>None\<close> meaning that the loop never returns.
\<close>

subsection \<open>Constants of the platform headers\<close>

text \<open>The error numbers of \<^verbatim>\<open>errno.h\<close>, with their Linux values.\<close>

abbreviation (input) ENOENT :: int where "ENOENT \<equiv> 2"
abbreviation (input) EINTR :: int where "EINTR \<equiv> 4"
abbreviation (input) ENOEXEC :: int where "ENOEXEC \<equiv> 8"
abbreviation (input) EBADF :: int where "EBADF \<equiv> 9"
abbreviation (input) EACCES :: int where "EACCES \<equiv> 13"
abbreviation (input) ENODEV :: int where "ENODEV \<equiv> 19"
abbreviation (input) ENOTDIR :: int where "ENOTDIR \<equiv> 20"
abbreviation (input) EPIPE :: int where "EPIPE \<equiv> 32"
abbreviation (input) ENAMETOOLONG :: int where "ENAMETOOLONG \<equiv> 36"
abbreviation (input) ELOOP :: int where "ELOOP \<equiv> 40"
abbreviation (input) ETIMEDOUT :: int where "ETIMEDOUT \<equiv> 110"
abbreviation (input) ESTALE :: int where "ESTALE \<equiv> 116"

abbreviation (input) STDIN_FILENO :: int where "STDIN_FILENO \<equiv> 0"
abbreviation (input) STDOUT_FILENO :: int where "STDOUT_FILENO \<equiv> 1"
abbreviation (input) STDERR_FILENO :: int where "STDERR_FILENO \<equiv> 2"
abbreviation (input) FD_CLOEXEC :: int where "FD_CLOEXEC \<equiv> 1"
abbreviation (input) PATH_MAX :: int where "PATH_MAX \<equiv> 4096"
abbreviation (input) LONG_MAX :: int where "LONG_MAX \<equiv> 9223372036854775807"
abbreviation (input) LONG_MIN :: int where "LONG_MIN \<equiv> - 9223372036854775808"

text \<open>\<open>sizeof(int)\<close>, as a count of bytes.\<close>

abbreviation (input) sizeof_int :: nat where "sizeof_int \<equiv> 4"

subsection \<open>Declarations of childproc.h\<close>

text \<open>
  Modelled from the spec: \<^verbatim>\<open>childproc.h\<close> is not among the sources. The spec (section 3)
  names two kinds of mode, shared address space and copied address space; the header's
  \<open>MODE_VFORK\<close> is the shared one, and every other value of \<open>mode\<close> is a copied one.
\<close>

abbreviation (input) MODE_FORK :: int where "MODE_FORK \<equiv> 1"
abbreviation (input) MODE_POSIX_SPAWN :: int where "MODE_POSIX_SPAWN \<equiv> 2"
abbreviation (input) MODE_VFORK :: int where "MODE_VFORK \<equiv> 3"

text \<open>
  Modelled from the spec: the descriptor the failure channel is moved to, ``a fixed,
  reserved descriptor number that is guaranteed not to collide with 0/1/2'' (section 4.3),
  the one after standard error.
\<close>

abbreviation (input) FAIL_FILENO :: int where "FAIL_FILENO \<equiv> STDERR_FILENO + 1"

text \<open>
  Modelled from the spec: the ``fixed sentinel value'' of the alive ping (section 4.2).
\<close>

abbreviation (input) CHILD_IS_ALIVE :: int where "CHILD_IS_ALIVE \<equiv> 65535"

type_synonym byte = "8 word"

text \<open>
  A pointer to an environment vector is its address, \<open>None\<close> for \<open>NULL\<close>; only the
  identity of the pointer is used by the code.
\<close>

type_synonym envptr = "nat option"

text \<open>
  An argument vector is the array the pointer \<open>argv\<close> points to, slot by slot, \<open>None\<close>
  for a \<open>NULL\<close> slot. The caller provides one slot after the terminating \<open>NULL\<close>.
\<close>

type_synonym argvec = "string option list"

text \<open>
  Modelled from the spec: the launch descriptor \<open>ChildStuff\<close> (section 3). The arrays
  \<open>in[2]\<close>, \<open>out[2]\<close>, \<open>err[2]\<close>, \<open>fail[2]\<close>, \<open>childenv[2]\<close> and \<open>fds[3]\<close> are one field per
  element; \<open>mode\<close>, \<open>argv\<close>, \<open>envv\<close> and \<open>pdir\<close> carry the prefix \<open>c_\<close>.
\<close>

record ChildStuff =
  in0 :: int
  in1 :: int
  out0 :: int
  out1 :: int
  err0 :: int
  err1 :: int
  fail0 :: int
  fail1 :: int
  childenv0 :: int
  childenv1 :: int
  fds0 :: int
  fds1 :: int
  fds2 :: int
  c_mode :: int
  c_argv :: argvec
  c_envv :: envptr
  c_pdir :: "string option"
  redirectErrorStream :: int
  sendAlivePing :: int

subsection \<open>The state of the process and of its environment\<close>

text \<open>
  A descriptor refers to an open file description (\<open>fd_file\<close>) and has a word of
  descriptor flags (\<open>fd_flags\<close>), of which \<open>FD_CLOEXEC\<close> is bit 0.
\<close>

record fdesc =
  fd_file :: nat
  fd_flags :: nat

text \<open>A call of the exec family: the path, the argument strings, the environment.\<close>

datatype exec_call =
  Execve string "string list" envptr
| Execvp string "string list" envptr

text \<open>
  The state. \<open>fdtab\<close> is the descriptor table, \<open>errno\<close>, \<open>environ\<close> and \<open>parentPathv\<close>
  are the global variables of those names, \<open>sigmask\<close> is the set of blocked signals and
  \<open>cwd\<close> the working directory. The oracles: \<open>fault k\<close> is the error the kernel answers
  the \<open>k\<close>-th interruptible call with (0 for none), \<open>clock\<close> counts these calls;
  \<open>chunk k\<close> bounds the bytes the \<open>k\<close>-th call transfers, to \<open>Suc (chunk k)\<close>;
  \<open>exec_err\<close> and \<open>chdir_err\<close> give the error of an exec call and of a chdir (0 for
  success); \<open>readdir_err i\<close> is the error of the \<open>readdir\<close> call made after \<open>i\<close> entries of
  a directory stream have been returned (0 for none); \<open>open_max\<close> is the value of
  \<open>sysconf(_SC_OPEN_MAX)\<close>. The observations:
  \<open>wlog\<close> lists every byte written, with the open file description it went to;
  \<open>pending\<close> holds the bytes still to be read from each file description; \<open>execs\<close>
  lists the exec calls made.
\<close>

record world =
  fdtab :: "(nat \<times> fdesc) list"
  errno :: int
  environ :: envptr
  parentPathv :: "string list"
  sigmask :: "nat set"
  cwd :: string
  clock :: nat
  fault :: "nat \<Rightarrow> int"
  chunk :: "nat \<Rightarrow> nat"
  exec_err :: "exec_call \<Rightarrow> int"
  chdir_err :: "string \<Rightarrow> int"
  readdir_err :: "nat \<Rightarrow> int"
  open_max :: int
  wlog :: "(nat \<times> byte) list"
  pending :: "nat \<Rightarrow> byte list"
  execs :: "exec_call list"

text \<open>How a run of \<open>childProcess\<close> ends.\<close>

datatype outcome =
  Execd exec_call world
| Exited int world

subsection \<open>The system calls\<close>

definition fd_lookup :: "world \<Rightarrow> int \<Rightarrow> fdesc option" where
  "fd_lookup w fd = (if fd < 0 then None else map_of (fdtab w) (nat fd))"

definition is_open :: "world \<Rightarrow> int \<Rightarrow> bool" where
  "is_open w fd = (fd_lookup w fd \<noteq> None)"

definition cloexec :: "world \<Rightarrow> int \<Rightarrow> bool" where
  "cloexec w fd = (case fd_lookup w fd of None \<Rightarrow> False | Some e \<Rightarrow> int (fd_flags e) AND FD_CLOEXEC \<noteq> 0)"

text \<open>
  \<open>dup2\<close>: fails with the fault of the oracle, or with \<open>EBADF\<close> when a descriptor is
  negative or the source is not open; leaves the table alone when source and target are
  equal; otherwise makes the target refer to the source's file description, with the
  descriptor flags cleared.
\<close>

definition sys_dup2 :: "int \<Rightarrow> int \<Rightarrow> world \<Rightarrow> int \<times> world" where
  "sys_dup2 fd_from fd_to w =
     (let k = clock w; w1 = w\<lparr>clock := Suc k\<rparr> in
      if fault w k \<noteq> 0 then (- 1, w1\<lparr>errno := fault w k\<rparr>)
      else if fd_to < 0 then (- 1, w1\<lparr>errno := EBADF\<rparr>)
      else case fd_lookup w fd_from of
             None \<Rightarrow> (- 1, w1\<lparr>errno := EBADF\<rparr>)
           | Some e \<Rightarrow>
               if fd_from = fd_to then (fd_to, w1)
               else (fd_to, w1\<lparr>fdtab := AList.update (nat fd_to) (e\<lparr>fd_flags := 0\<rparr>) (fdtab w)\<rparr>))"

text \<open>
  \<open>close\<close>: \<open>EBADF\<close> when the descriptor is not open. An open descriptor is released
  also when the call reports a fault of the oracle, as on Linux.
\<close>

definition sys_close :: "int \<Rightarrow> world \<Rightarrow> int \<times> world" where
  "sys_close fd w =
     (let k = clock w; w1 = w\<lparr>clock := Suc k\<rparr> in
      case fd_lookup w fd of
        None \<Rightarrow> (- 1, w1\<lparr>errno := EBADF\<rparr>)
      | Some e \<Rightarrow>
          (let w2 = w1\<lparr>fdtab := AList.delete (nat fd) (fdtab w)\<rparr> in
           if fault w k \<noteq> 0 then (- 1, w2\<lparr>errno := fault w k\<rparr>) else (0, w2)))"

text \<open>\<open>fcntl(fd, F_GETFD)\<close> and \<open>fcntl(fd, F_SETFD, flags)\<close>: \<open>EBADF\<close> is their only error.\<close>

definition sys_fcntl_getfd :: "int \<Rightarrow> world \<Rightarrow> int \<times> world" where
  "sys_fcntl_getfd fd w =
     (case fd_lookup w fd of
        None \<Rightarrow> (- 1, w\<lparr>errno := EBADF\<rparr>)
      | Some e \<Rightarrow> (int (fd_flags e), w))"

definition sys_fcntl_setfd :: "int \<Rightarrow> int \<Rightarrow> world \<Rightarrow> int \<times> world" where
  "sys_fcntl_setfd fd flags w =
     (case fd_lookup w fd of
        None \<Rightarrow> (- 1, w\<lparr>errno := EBADF\<rparr>)
      | Some e \<Rightarrow> (0, w\<lparr>fdtab := AList.update (nat fd) (e\<lparr>fd_flags := nat flags\<rparr>) (fdtab w)\<rparr>))"

text \<open>
  \<open>write(fd, buf, n)\<close>, \<open>buf\<close> being the \<open>n\<close> bytes to write: the fault of the oracle,
  \<open>EBADF\<close>, or a transfer of at least one byte (of none when \<open>n = 0\<close>) and of at most
  \<open>Suc (chunk k)\<close> bytes, which are appended to the log.
\<close>

definition sys_write :: "int \<Rightarrow> byte list \<Rightarrow> world \<Rightarrow> int \<times> world" where
  "sys_write fd buf w =
     (let k = clock w; w1 = w\<lparr>clock := Suc k\<rparr> in
      if fault w k \<noteq> 0 then (- 1, w1\<lparr>errno := fault w k\<rparr>)
      else case fd_lookup w fd of
             None \<Rightarrow> (- 1, w1\<lparr>errno := EBADF\<rparr>)
           | Some e \<Rightarrow>
               (let n = min (Suc (chunk w k)) (length buf) in
                (int n, w1\<lparr>wlog := wlog w @ map (Pair (fd_file e)) (take n buf)\<rparr>)))"

text \<open>
  \<open>read(fd, buf, n)\<close>: returns the count and the bytes stored at \<open>buf\<close>. The count is 0
  only at the end of the file (no byte is pending) or when \<open>n = 0\<close>.
\<close>

definition sys_read :: "int \<Rightarrow> nat \<Rightarrow> world \<Rightarrow> int \<times> byte list \<times> world" where
  "sys_read fd n w =
     (let k = clock w; w1 = w\<lparr>clock := Suc k\<rparr> in
      if fault w k \<noteq> 0 then (- 1, [], w1\<lparr>errno := fault w k\<rparr>)
      else case fd_lookup w fd of
             None \<Rightarrow> (- 1, [], w1\<lparr>errno := EBADF\<rparr>)
           | Some e \<Rightarrow>
               (let f = fd_file e;
                    m = min (min (Suc (chunk w k)) n) (length (pending w f))
                in (int m, take m (pending w f),
                    w1\<lparr>pending := (pending w)(f := drop m (pending w f))\<rparr>)))"

text \<open>\<open>chdir\<close>: the oracle decides.\<close>

definition sys_chdir :: "string \<Rightarrow> world \<Rightarrow> int \<times> world" where
  "sys_chdir path w =
     (if chdir_err w path \<noteq> 0 then (- 1, w\<lparr>errno := chdir_err w path\<rparr>)
      else (0, w\<lparr>cwd := path\<rparr>))"

text \<open>\<open>sigemptyset\<close> followed by \<open>sigprocmask(SIG_SETMASK, &set, NULL)\<close>.\<close>

definition sys_sigprocmask_setmask :: "nat set \<Rightarrow> world \<Rightarrow> world" where
  "sys_sigprocmask_setmask s w = w\<lparr>sigmask := s\<rparr>"

text \<open>The strings of an argument vector: the slots before the first \<open>NULL\<close>.\<close>

definition cvec :: "argvec \<Rightarrow> string list" where
  "cvec av = map the (takeWhile (\<lambda>a. a \<noteq> None) av)"

text \<open>
  \<open>execve\<close> and \<open>execvp\<close>: the call is logged; when the oracle answers 0 the process
  image is replaced, and the state at that moment is the terminal outcome; otherwise
  the call returns with \<open>errno\<close> set. \<open>execvp\<close> takes the environment from \<open>environ\<close>.
\<close>

definition sys_execve :: "string \<Rightarrow> argvec \<Rightarrow> envptr \<Rightarrow> world \<Rightarrow> outcome + world" where
  "sys_execve path av envp w =
     (let c = Execve path (cvec av) envp; w1 = w\<lparr>execs := execs w @ [c]\<rparr> in
      if exec_err w c = 0 then Inl (Execd c w1) else Inr (w1\<lparr>errno := exec_err w c\<rparr>))"

definition sys_execvp :: "string \<Rightarrow> argvec \<Rightarrow> world \<Rightarrow> outcome + world" where
  "sys_execvp file av w =
     (let c = Execvp file (cvec av) (environ w); w1 = w\<lparr>execs := execs w @ [c]\<rparr> in
      if exec_err w c = 0 then Inl (Execd c w1) else Inr (w1\<lparr>errno := exec_err w c\<rparr>))"

subsection \<open>The descriptor directory\<close>

text \<open>
  \<open>FD_DIR\<close> (\<^verbatim>\<open>/proc/self/fd\<close>, \<^verbatim>\<open>/dev/fd\<close>) lists the open descriptors of the process by
  their decimal names, besides \<^verbatim>\<open>.\<close> and \<^verbatim>\<open>..\<close>.
\<close>

definition digit_char :: "nat \<Rightarrow> char" where
  "digit_char d = char_of (48 + d)"

function dec :: "nat \<Rightarrow> string" where
  "dec n = (if n < 10 then [digit_char n] else dec (n div 10) @ [digit_char (n mod 10)])"
  by pat_completeness auto
termination
  by (relation "measure id") auto

declare dec.simps [simp del]

text \<open>
  A directory stream: the descriptor it holds and the entries \<open>readdir\<close> has not returned
  yet.
\<close>

record DIR =
  dir_fd :: nat
  dir_ents :: "string list"

text \<open>The lowest descriptor that is not open.\<close>

definition lowest_free :: "nat list \<Rightarrow> nat" where
  "lowest_free ks = hd (filter (\<lambda>i. i \<notin> set ks) [0 ..< Suc (length ks)])"

text \<open>
  \<open>opendir(FD_DIR)\<close>: the fault of the oracle, or a stream on the lowest free
  descriptor; that descriptor is open while the stream is, and is listed as well.
\<close>

definition sys_opendir_fd :: "world \<Rightarrow> DIR option \<times> world" where
  "sys_opendir_fd w =
     (let k = clock w; w1 = w\<lparr>clock := Suc k\<rparr> in
      if fault w k \<noteq> 0 then (None, w1\<lparr>errno := fault w k\<rparr>)
      else
        (let d = lowest_free (map fst (fdtab w));
             t = AList.update d \<lparr>fd_file = 0, fd_flags = 1\<rparr> (fdtab w)
         in (Some \<lparr>dir_fd = d, dir_ents = ''.'' # ''..'' # map (dec \<circ> fst) t\<rparr>,
             w1\<lparr>fdtab := t\<rparr>)))"

definition sys_closedir :: "DIR \<Rightarrow> world \<Rightarrow> world" where
  "sys_closedir dp w = w\<lparr>fdtab := AList.delete (dir_fd dp) (fdtab w)\<rparr>"

text \<open>
  \<open>readdir\<close>, when \<open>i\<close> entries have been returned and \<open>ents\<close> are those still to come:
  the next entry, or \<open>NULL\<close>, at the end of the directory and also on an error, which
  sets \<open>errno\<close>.
\<close>

definition sys_readdir :: "nat \<Rightarrow> string list \<Rightarrow> world \<Rightarrow> string option \<times> world" where
  "sys_readdir i ents w =
     (if readdir_err w i \<noteq> 0 then (None, w\<lparr>errno := readdir_err w i\<rparr>)
      else case ents of [] \<Rightarrow> (None, w) | d_name # rest \<Rightarrow> (Some d_name, w))"

text \<open>
  \<open>strtol(s, NULL, 10)\<close>: white space, an optional sign, decimal digits; the value is
  clamped to the range of \<open>long\<close>. \<open>int_of_long\<close> is the conversion of the result to \<open>int\<close>.
\<close>

definition isspace :: "char \<Rightarrow> bool" where
  "isspace c = (of_char c \<in> {32, 9, 10, 11, 12, 13 :: nat})"

definition isdigit :: "char \<Rightarrow> bool" where
  "isdigit c = (48 \<le> (of_char c :: nat) \<and> (of_char c :: nat) \<le> 57)"

definition strtol10 :: "string \<Rightarrow> int" where
  "strtol10 s =
     (let s1 = dropWhile isspace s;
          neg = (s1 \<noteq> [] \<and> hd s1 = CHR ''-'');
          s2 = (if s1 \<noteq> [] \<and> (hd s1 = CHR ''-'' \<or> hd s1 = CHR ''+'') then tl s1 else s1);
          v = foldl (\<lambda>a c. 10 * a + (of_char c - 48)) (0 :: int) (takeWhile isdigit s2)
      in if neg then max LONG_MIN (- v) else min LONG_MAX v)"

definition int_of_long :: "int \<Rightarrow> int" where
  "int_of_long x = signed_take_bit 31 x"

subsection \<open>Descriptor helpers (lines 41 to 130)\<close>

text \<open>
  Modelled from the spec: the macro \<open>RESTARTABLE\<close> of \<^verbatim>\<open>childproc.h\<close> is not among the
  sources; it repeats the call for as long as it fails with \<open>EINTR\<close> (``interrupted
  system calls ... retried transparently'', section 7).
\<close>

partial_function (option) restartableDup2 :: "int \<Rightarrow> int \<Rightarrow> world \<Rightarrow> (int \<times> world) option" where
  "restartableDup2 fd_from fd_to w =
     (case sys_dup2 fd_from fd_to w of
        (err, w') \<Rightarrow>
          if err = - 1 \<and> errno w' = EINTR then restartableDup2 fd_from fd_to w'
          else Some (err, w'))"

declare restartableDup2.simps [code]

definition closeSafely :: "int \<Rightarrow> world \<Rightarrow> int \<times> world" where
  "closeSafely fd w = (if fd = - 1 then (0, w) else sys_close fd w)"

definition markCloseOnExec :: "int \<Rightarrow> world \<Rightarrow> int \<times> world" where
  "markCloseOnExec fd w =
     (case sys_fcntl_getfd fd w of
        (flags, w1) \<Rightarrow>
          if flags < 0 then (- 1, w1)
          else if flags AND FD_CLOEXEC = 0 then
            (case sys_fcntl_setfd fd (flags OR FD_CLOEXEC) w1 of
               (r, w2) \<Rightarrow> if r < 0 then (- 1, w2) else (0, w2))
          else (0, w1))"

definition isAsciiDigit :: "char \<Rightarrow> bool" where
  "isAsciiDigit c = ((of_char c :: nat) \<ge> of_char CHR ''0'' \<and> (of_char c :: nat) \<le> of_char CHR ''9'')"

text \<open>\<open>d_name[0]\<close>: the first character, the terminating NUL for the empty name.\<close>

definition first_char :: "string \<Rightarrow> char" where
  "first_char s = (case s of [] \<Rightarrow> CHR 0x00 | c # _ \<Rightarrow> c)"

text \<open>
  The loop of \<open>markDescriptorsCloseOnExec\<close> (lines 105 to 118): \<open>i\<close> entries have been
  returned by \<open>readdir\<close>, \<open>ents\<close> are those still to come. The loop ends with the result 0
  when \<open>readdir\<close> returns \<open>NULL\<close>, at the end of the directory or on an error.
\<close>

fun markDescriptorsCloseOnExec_loop ::
  "DIR \<Rightarrow> nat \<Rightarrow> string list \<Rightarrow> world \<Rightarrow> int \<times> world" where
  "markDescriptorsCloseOnExec_loop dp i [] w = (0, sys_closedir dp (snd (sys_readdir i [] w)))"
| "markDescriptorsCloseOnExec_loop dp i (d # rest) w =
     (case sys_readdir i (d # rest) w of
        (None, w0) \<Rightarrow> (0, sys_closedir dp w0)
      | (Some d_name, w0) \<Rightarrow>
          (let fd_from = STDERR_FILENO + 1;
               fd = int_of_long (strtol10 d_name)
           in if isAsciiDigit (first_char d_name) \<and> fd \<ge> fd_from then
                (case markCloseOnExec fd w0 of
                   (r, w') \<Rightarrow>
                     if r = - 1 then (- 1, sys_closedir dp w')
                     else markDescriptorsCloseOnExec_loop dp (Suc i) rest w')
              else markDescriptorsCloseOnExec_loop dp (Suc i) rest w0))"

definition markDescriptorsCloseOnExec :: "world \<Rightarrow> int \<times> world" where
  "markDescriptorsCloseOnExec w =
     (case sys_opendir_fd w of
        (None, w1) \<Rightarrow> (- 1, w1)
      | (Some dp, w1) \<Rightarrow> markDescriptorsCloseOnExec_loop dp 0 (dir_ents dp) w1)"

definition moveDescriptor :: "int \<Rightarrow> int \<Rightarrow> world \<Rightarrow> (int \<times> world) option" where
  "moveDescriptor fd_from fd_to w =
     (if fd_from \<noteq> fd_to then
        (case restartableDup2 fd_from fd_to w of
           None \<Rightarrow> None
         | Some (r, w1) \<Rightarrow>
             if r = - 1 then Some (- 1, w1)
             else (case sys_close fd_from w1 of
                     (c, w2) \<Rightarrow> if c = - 1 then Some (- 1, w2) else Some (0, w2)))
      else Some (0, w))"

subsection \<open>Reliable reads and writes (lines 144 to 206)\<close>

text \<open>
  \<open>readFully\<close> returns its result and the bytes it has stored at \<open>buf\<close>, in the order
  of their addresses. The argument \<open>buf\<close> of \<open>writeFully\<close> is the bytes at the pointer.
  \<open>remaining\<close> is an \<open>ssize_t\<close>; an object has at most \<open>SSIZE_MAX\<close> bytes, so no
  conversion of a count changes its value.
\<close>

partial_function (option) readFully_loop ::
  "int \<Rightarrow> nat \<Rightarrow> int \<Rightarrow> byte list \<Rightarrow> world \<Rightarrow> (int \<times> byte list \<times> world) option" where
  "readFully_loop fd nbyte remaining got w =
     (case sys_read fd (nat remaining) w of
        (n, bs, w') \<Rightarrow>
          if n = 0 then Some (int nbyte - remaining, got, w')
          else if n > 0 then
            (if remaining - n \<le> 0 then Some (int nbyte, got @ bs, w')
             else readFully_loop fd nbyte (remaining - n) (got @ bs) w')
          else if errno w' = EINTR then readFully_loop fd nbyte remaining got w'
          else Some (- 1, got, w'))"

declare readFully_loop.simps [code]

definition readFully :: "int \<Rightarrow> nat \<Rightarrow> world \<Rightarrow> (int \<times> byte list \<times> world) option" where
  "readFully fd nbyte w = readFully_loop fd nbyte (int nbyte) [] w"

partial_function (option) writeFully_loop ::
  "int \<Rightarrow> nat \<Rightarrow> int \<Rightarrow> byte list \<Rightarrow> world \<Rightarrow> (int \<times> world) option" where
  "writeFully_loop fd nbyte remaining buf w =
     (case sys_write fd (take (nat remaining) buf) w of
        (n, w') \<Rightarrow>
          if n > 0 then
            (if remaining - n \<le> 0 then Some (int nbyte, w')
             else writeFully_loop fd nbyte (remaining - n) (drop (nat n) buf) w')
          else if n = - 1 \<and> errno w' = EINTR then writeFully_loop fd nbyte remaining buf w'
          else Some (- 1, w'))"

declare writeFully_loop.simps [code]

definition writeFully :: "int \<Rightarrow> byte list \<Rightarrow> nat \<Rightarrow> world \<Rightarrow> (int \<times> world) option" where
  "writeFully fd buf nbyte w = writeFully_loop fd nbyte (int nbyte) buf w"

subsection \<open>Program execution (lines 227 to 348)\<close>

text \<open>\<open>memmove(a + dst, a + src, n * sizeof(*a))\<close> on the array \<open>a\<close>.\<close>

definition memmove :: "'a list \<Rightarrow> nat \<Rightarrow> nat \<Rightarrow> nat \<Rightarrow> 'a list" where
  "memmove a dst src n = take dst a @ take n (drop src a) @ drop (dst + n) a"

definition execve_as_traditional_shell_script ::
  "string \<Rightarrow> argvec \<Rightarrow> envptr \<Rightarrow> world \<Rightarrow> outcome + (argvec \<times> world)" where
  "execve_as_traditional_shell_script file av envp w =
     (let argv0 = av ! 0;
          n = length (takeWhile (\<lambda>a. a \<noteq> None) av);
          av1 = memmove av 2 1 n;
          av2 = av1[0 := Some ''/bin/sh''];
          av3 = av2[1 := Some file]
      in case sys_execve (the (av3 ! 0)) av3 envp w of
           Inl out \<Rightarrow> Inl out
         | Inr w' \<Rightarrow> Inr ((memmove av3 1 2 n)[0 := argv0], w'))"

definition execve_with_shell_fallback ::
  "int \<Rightarrow> string \<Rightarrow> argvec \<Rightarrow> envptr \<Rightarrow> world \<Rightarrow> outcome + (argvec \<times> world)" where
  "execve_with_shell_fallback mode file av envp w =
     (if mode = MODE_VFORK then
        (case sys_execve file av envp w of
           Inl out \<Rightarrow> Inl out
         | Inr w1 \<Rightarrow>
             if errno w1 = ENOEXEC then execve_as_traditional_shell_script file av envp w1
             else Inr (av, w1))
      else
        (case sys_execvp file av (w\<lparr>environ := envp\<rparr>) of
           Inl out \<Rightarrow> Inl out
         | Inr w1 \<Rightarrow> Inr (av, w1)))"

text \<open>
  The candidate of the PATH search (lines 304 to 308): \<open>dir\<close>, a \<^verbatim>\<open>/\<close> unless \<open>dir\<close> ends
  in one, \<open>file\<close>. For the empty \<open>dir\<close> the source reads the byte before the buffer.
\<close>

definition expanded_file :: "string \<Rightarrow> string \<Rightarrow> string" where
  "expanded_file dir file = (if last dir \<noteq> CHR ''/'' then dir @ ''/'' else dir) @ file"

text \<open>The loop over \<open>parentPathv\<close> (lines 297 to 346).\<close>

fun JDK_execvpe_loop ::
  "int \<Rightarrow> string \<Rightarrow> envptr \<Rightarrow> string list \<Rightarrow> int \<Rightarrow> argvec \<Rightarrow> world \<Rightarrow> outcome + (argvec \<times> world)" where
  "JDK_execvpe_loop mode file envp [] sticky_errno av w =
     Inr (av, if sticky_errno \<noteq> 0 then w\<lparr>errno := sticky_errno\<rparr> else w)"
| "JDK_execvpe_loop mode file envp (dir # dirs) sticky_errno av w =
     (let filelen = int (length file); dirlen = int (length dir) in
      if filelen + dirlen + 2 \<ge> PATH_MAX then
        JDK_execvpe_loop mode file envp dirs sticky_errno av (w\<lparr>errno := ENAMETOOLONG\<rparr>)
      else
        (case execve_with_shell_fallback mode (expanded_file dir file) av envp w of
           Inl out \<Rightarrow> Inl out
         | Inr (av', w') \<Rightarrow>
             if errno w' = EACCES then JDK_execvpe_loop mode file envp dirs (errno w') av' w'
             else if errno w' \<in> {ENOENT, ENOTDIR, ELOOP, ESTALE, ENODEV, ETIMEDOUT} then
               JDK_execvpe_loop mode file envp dirs sticky_errno av' w'
             else Inr (av', w')))"

definition JDK_execvpe ::
  "int \<Rightarrow> string \<Rightarrow> argvec \<Rightarrow> envptr \<Rightarrow> world \<Rightarrow> outcome + (argvec \<times> world)" where
  "JDK_execvpe mode file av envp w =
     (if envp = None \<or> envp = environ w then
        (case sys_execvp file av w of
           Inl out \<Rightarrow> Inl out
         | Inr w1 \<Rightarrow> Inr (av, w1))
      else if file = [] then Inr (av, w\<lparr>errno := ENOENT\<rparr>)
      else if CHR ''/'' \<in> set file then execve_with_shell_fallback mode file av envp w
      else JDK_execvpe_loop mode file envp (parentPathv w) 0 av w)"

subsection \<open>The child process (lines 356 to 449)\<close>

text \<open>The bytes of an \<open>int\<close> object, in the byte order of the x86 host.\<close>

definition int_bytes :: "int \<Rightarrow> byte list" where
  "int_bytes x = [word_of_int x, word_of_int (x div 256), word_of_int (x div 65536),
                  word_of_int (x div 16777216)]"

text \<open>
  The failure tail, the label \<open>WhyCantJohnnyExec\<close> (lines 431 to 448): the result of
  \<open>writeFully\<close> and of \<open>close\<close> is not looked at, and \<open>_exit(-1)\<close> ends the process.
\<close>

definition WhyCantJohnnyExec :: "int \<Rightarrow> world \<Rightarrow> outcome option" where
  "WhyCantJohnnyExec fail_pipe_fd w =
     (let errnum = errno w in
      case writeFully fail_pipe_fd (int_bytes errnum) sizeof_int w of
        None \<Rightarrow> None
      | Some (r, w1) \<Rightarrow> (case sys_close fail_pipe_fd w1 of (c, w2) \<Rightarrow> Some (Exited (- 1) w2)))"

text \<open>
  The conditions of the \<open>if\<close> statements that jump to the failure tail are state
  transformers returning whether the condition holds: \<open>fails f\<close> is \<open>f(...) == -1\<close>,
  \<open>orelse\<close> is the short-circuit \<open>||\<close>, and \<open>stage_then c fd rest\<close> is
  \<open>if (c) goto WhyCantJohnnyExec; rest\<close>, \<open>fd\<close> being the value of \<open>fail_pipe_fd\<close> there.
\<close>

type_synonym cond = "world \<Rightarrow> (bool \<times> world) option"

definition fails :: "(world \<Rightarrow> int \<times> world) \<Rightarrow> cond" where
  "fails f w = (case f w of (r, w') \<Rightarrow> Some (r = - 1, w'))"

definition fails_opt :: "(world \<Rightarrow> (int \<times> world) option) \<Rightarrow> cond" where
  "fails_opt f w = (case f w of None \<Rightarrow> None | Some (r, w') \<Rightarrow> Some (r = - 1, w'))"

definition orelse :: "cond \<Rightarrow> cond \<Rightarrow> cond" where
  "orelse a b w = (case a w of None \<Rightarrow> None | Some (r, w1) \<Rightarrow> if r then Some (True, w1) else b w1)"

definition stage_then :: "cond \<Rightarrow> int \<Rightarrow> (world \<Rightarrow> outcome option) \<Rightarrow> world \<Rightarrow> outcome option" where
  "stage_then c fail_pipe_fd rest w =
     (case c w of
        None \<Rightarrow> None
      | Some (bad, w') \<Rightarrow> if bad then WhyCantJohnnyExec fail_pipe_fd w' else rest w')"

text \<open>Lines 362 to 369: the alive ping.\<close>

definition childProcess_alive :: "ChildStuff \<Rightarrow> cond" where
  "childProcess_alive p w =
     (if sendAlivePing p \<noteq> 0 then
        (case writeFully (fail1 p) (int_bytes CHILD_IS_ALIVE) sizeof_int w of
           None \<Rightarrow> None
         | Some (r, w') \<Rightarrow> Some (r \<noteq> int sizeof_int, w'))
      else Some (False, w))"

text \<open>Lines 377 to 383: close the parent sides of the pipes.\<close>

definition childProcess_close_parent_sides :: "ChildStuff \<Rightarrow> cond" where
  "childProcess_close_parent_sides p =
     orelse (fails (closeSafely (in1 p)))
    (orelse (fails (closeSafely (out0 p)))
    (orelse (fails (closeSafely (err0 p)))
    (orelse (fails (closeSafely (childenv0 p)))
    (orelse (fails (closeSafely (childenv1 p)))
            (fails (closeSafely (fail0 p)))))))"

text \<open>Lines 387 to 391: standard input and standard output.\<close>

definition childProcess_stdin_stdout :: "ChildStuff \<Rightarrow> cond" where
  "childProcess_stdin_stdout p =
     orelse (fails_opt (moveDescriptor (if in0 p \<noteq> - 1 then in0 p else fds0 p) STDIN_FILENO))
            (fails_opt (moveDescriptor (if out1 p \<noteq> - 1 then out1 p else fds1 p) STDOUT_FILENO))"

text \<open>Lines 393 to 401: standard error.\<close>

definition childProcess_stderr :: "ChildStuff \<Rightarrow> cond" where
  "childProcess_stderr p =
     (if redirectErrorStream p \<noteq> 0 then
        orelse (fails (closeSafely (err1 p)))
               (fails_opt (restartableDup2 STDOUT_FILENO STDERR_FILENO))
      else fails_opt (moveDescriptor (if err1 p \<noteq> - 1 then err1 p else fds2 p) STDERR_FILENO))"

text \<open>Lines 411 to 415: the scan of every descriptor number below \<open>max_fd\<close>.\<close>

function close_the_old_way :: "int \<Rightarrow> int \<Rightarrow> world \<Rightarrow> bool \<times> world" where
  "close_the_old_way fd max_fd w =
     (if fd < max_fd then
        (case markCloseOnExec fd w of
           (r, w') \<Rightarrow>
             if r = - 1 \<and> errno w' \<noteq> EBADF then (True, w')
             else close_the_old_way (fd + 1) max_fd w')
      else (False, w))"
  by pat_completeness auto
termination
  by (relation "measure (\<lambda>(fd, max_fd, w). nat (max_fd - fd))") auto

declare close_the_old_way.simps [simp del]

text \<open>Lines 409 to 416: mark the descriptors close-on-exec.\<close>

definition childProcess_close_everything :: cond where
  "childProcess_close_everything w =
     (case markDescriptorsCloseOnExec w of
        (r, w1) \<Rightarrow>
          if r = - 1 then
            (let max_fd = int_of_long (open_max w1) in
             Some (close_the_old_way (STDERR_FILENO + 1) max_fd w1))
          else Some (False, w1))"

text \<open>Lines 418 to 420: the working directory.\<close>

definition childProcess_chdir :: "ChildStuff \<Rightarrow> cond" where
  "childProcess_chdir p w =
     (case c_pdir p of
        None \<Rightarrow> Some (False, w)
      | Some d \<Rightarrow> (case sys_chdir d w of (r, w') \<Rightarrow> Some (r < 0, w')))"

text \<open>Lines 422 to 427: the signal mask.\<close>

definition childProcess_sigmask :: "ChildStuff \<Rightarrow> world \<Rightarrow> world" where
  "childProcess_sigmask p w =
     (if c_mode p \<noteq> MODE_VFORK then sys_sigprocmask_setmask {} w else w)"

text \<open>Line 429 and the fall into the failure tail.\<close>

definition childProcess_exec :: "ChildStuff \<Rightarrow> world \<Rightarrow> outcome option" where
  "childProcess_exec p w =
     (case JDK_execvpe (c_mode p) (the (c_argv p ! 0)) (c_argv p) (c_envv p) w of
        Inl out \<Rightarrow> Some out
      | Inr (av, w') \<Rightarrow> WhyCantJohnnyExec FAIL_FILENO w')"

definition childProcess :: "ChildStuff \<Rightarrow> world \<Rightarrow> outcome option" where
  "childProcess p w =
     (let fail_pipe_fd = fail1 p in
      stage_then (childProcess_alive p) fail_pipe_fd
     (stage_then (childProcess_close_parent_sides p) fail_pipe_fd
     (stage_then (childProcess_stdin_stdout p) fail_pipe_fd
     (stage_then (childProcess_stderr p) fail_pipe_fd
     (stage_then (fails_opt (moveDescriptor fail_pipe_fd FAIL_FILENO)) fail_pipe_fd
     (stage_then childProcess_close_everything FAIL_FILENO
     (stage_then (childProcess_chdir p) FAIL_FILENO
     (\<lambda>w'. childProcess_exec p (childProcess_sigmask p w')))))))) w)"

section \<open>Predicates used in the statements and proofs\<close>

text \<open>
  What no step of the child changes but by a write, a \<open>sigprocmask\<close> or a change of the
  oracles: the log of the writes, the signal mask, the faults, the bound on descriptors.
\<close>

definition frame :: "world \<Rightarrow> world \<Rightarrow> bool" where
  "frame w w' = (wlog w' = wlog w \<and> sigmask w' = sigmask w \<and> fault w' = fault w \<and>
                 open_max w' = open_max w \<and> readdir_err w' = readdir_err w)"

text \<open>
  From some call on, no system call is answered \<open>EINTR\<close>: the hypothesis under which
  the retry loops end.
\<close>

definition quiet :: "world \<Rightarrow> bool" where
  "quiet w = (\<exists>N. \<forall>k\<ge>N. fault w k \<noteq> EINTR)"

text \<open>
  The frame of a read or a write: the descriptor table is the same as well, and the
  count of system calls has not gone down.
\<close>

definition frame0 :: "world \<Rightarrow> world \<Rightarrow> bool" where
  "frame0 w w' = (sigmask w' = sigmask w \<and> fault w' = fault w \<and> fdtab w' = fdtab w \<and>
                  open_max w' = open_max w \<and> readdir_err w' = readdir_err w \<and>
                  clock w \<le> clock w')"

text \<open>The open file behind a descriptor (0 when the descriptor is not open).\<close>

definition chan :: "world \<Rightarrow> int \<Rightarrow> nat" where
  "chan w fd = (case fd_lookup w fd of None \<Rightarrow> 0 | Some e \<Rightarrow> fd_file e)"

text \<open>A condition of a stage keeps the frame, whatever it answers.\<close>

definition cond_frame :: "cond \<Rightarrow> bool" where
  "cond_frame c = (\<forall>w r w'. c w = Some (r, w') \<longrightarrow> frame w w')"

text \<open>A condition of a stage returns when \<open>EINTR\<close> is answered finitely often.\<close>

definition cond_total :: "cond \<Rightarrow> bool" where
  "cond_total c = (\<forall>w. quiet w \<longrightarrow> c w \<noteq> None)"

text \<open>The frame of an exec attempt that fails: the descriptor table is the same as well.\<close>

definition xframe :: "world \<Rightarrow> world \<Rightarrow> bool" where
  "xframe w w' = (frame w w' \<and> fdtab w' = fdtab w)"

text \<open>
  What an execution function leaves: a program image started in the frame, or a return in
  the frame; it never exits.
\<close>

definition exec_frame :: "world \<Rightarrow> outcome + (argvec \<times> world) \<Rightarrow> bool" where
  "exec_frame w r =
     (case r of
        Inl out \<Rightarrow> (case out of Execd c w' \<Rightarrow> xframe w w' | Exited s w' \<Rightarrow> False)
      | Inr (av, w') \<Rightarrow> xframe w w')"

text \<open>The bytes of the alive ping a launch asks for: those of \<open>CHILD_IS_ALIVE\<close>, or none.\<close>

definition alive_ping :: "ChildStuff \<Rightarrow> byte list" where
  "alive_ping p = (if sendAlivePing p \<noteq> 0 then int_bytes CHILD_IS_ALIVE else [])"

text \<open>The status of \<open>_exit\<close>, when the process has exited.\<close>

fun exit_status :: "outcome \<Rightarrow> int option" where
  "exit_status (Execd c w) = None"
| "exit_status (Exited s w) = Some s"

text \<open>The state in which a run has ended.\<close>

fun final_world :: "outcome \<Rightarrow> world" where
  "final_world (Execd c w) = w"
| "final_world (Exited s w) = w"

text \<open>Bytes written by the failure tail: a prefix of the bytes of one \<open>int\<close>, to one file.\<close>

definition errno_report :: "(nat \<times> byte) list \<Rightarrow> bool" where
  "errno_report xs = (\<exists>bs e f. prefix bs (int_bytes e) \<and> xs = map (Pair f) bs)"

text \<open>What holds at the end of a run that started after the alive ping.\<close>

definition run_post :: "ChildStuff \<Rightarrow> world \<Rightarrow> outcome \<Rightarrow> bool" where
  "run_post p w out =
     (case out of
        Execd c w' \<Rightarrow>
          wlog w' = wlog w \<and> sigmask w' = (if c_mode p \<noteq> MODE_VFORK then {} else sigmask w)
      | Exited s w' \<Rightarrow>
          s = - 1 \<and> (\<exists>xs. errno_report xs \<and> wlog w' = wlog w @ xs) \<and>
          (\<not> is_open w' (fail1 p) \<or> \<not> is_open w' FAIL_FILENO) \<and>
          (c_mode p = MODE_VFORK \<longrightarrow> sigmask w' = sigmask w))"

text \<open>\<open>childProcess\<close> from line 374 on, after the alive ping.\<close>

definition childProcess_rest :: "ChildStuff \<Rightarrow> world \<Rightarrow> outcome option" where
  "childProcess_rest p =
     (stage_then (childProcess_close_parent_sides p) (fail1 p)
     (stage_then (childProcess_stdin_stdout p) (fail1 p)
     (stage_then (childProcess_stderr p) (fail1 p)
     (stage_then (fails_opt (moveDescriptor (fail1 p) FAIL_FILENO)) (fail1 p)
     (stage_then childProcess_close_everything FAIL_FILENO
     (stage_then (childProcess_chdir p) FAIL_FILENO
     (\<lambda>w'. childProcess_exec p (childProcess_sigmask p w'))))))))"

text \<open>What holds at the end of a whole run, alive ping included.\<close>

definition run_result :: "ChildStuff \<Rightarrow> world \<Rightarrow> outcome \<Rightarrow> bool" where
  "run_result p w out =
     (case out of
        Execd c w' \<Rightarrow>
          wlog w' = wlog w @ map (Pair (chan w (fail1 p))) (alive_ping p)
      | Exited s w' \<Rightarrow>
          s = - 1 \<and>
          (\<exists>pre xs. prefix pre (alive_ping p) \<and> errno_report xs \<and>
                    wlog w' = wlog w @ map (Pair (chan w (fail1 p))) pre @ xs) \<and>
          (\<not> is_open w' (fail1 p) \<or> \<not> is_open w' FAIL_FILENO))"

text \<open>The parent sides of the pipes, which lines 377 to 382 close, in that order.\<close>

definition leftover :: "ChildStuff \<Rightarrow> int list" where
  "leftover p = [in1 p, out0 p, err0 p, childenv0 p, childenv1 p, fail0 p]"

text \<open>A descriptor number that is not the sentinel \<open>-1\<close> and is not open.\<close>

definition stale :: "world \<Rightarrow> int \<Rightarrow> bool" where
  "stale w fd = (fd \<noteq> - 1 \<and> \<not> is_open w fd)"

text \<open>The count of arguments before the terminating \<open>NULL\<close>.\<close>

definition argc :: "argvec \<Rightarrow> nat" where
  "argc av = length (takeWhile (\<lambda>a. a \<noteq> None) av)"

text \<open>
  An argument vector as the caller of \<open>childProcess\<close> builds it: at least \<open>argv[0]\<close>, the
  terminating \<open>NULL\<close>, and one more slot for the shell fallback.
\<close>

definition wf_argv :: "argvec \<Rightarrow> bool" where
  "wf_argv av = (1 \<le> argc av \<and> argc av + 2 \<le> length av)"

text \<open>
  The exec of the shell on a script: \<^verbatim>\<open>/bin/sh\<close>, the path of the script, the arguments
  after \<open>argv[0]\<close>.
\<close>

definition sh_call :: "string \<Rightarrow> string list \<Rightarrow> envptr \<Rightarrow> exec_call" where
  "sh_call path args envp = Execve ''/bin/sh'' (''/bin/sh'' # path # tl args) envp"

text \<open>The exec calls of one attempt on a path that fails, by mode.\<close>

definition attempt_calls :: "int \<Rightarrow> string \<Rightarrow> string list \<Rightarrow> envptr \<Rightarrow> world \<Rightarrow> exec_call list" where
  "attempt_calls mode path args envp w =
     (if mode = MODE_VFORK then
        (if exec_err w (Execve path args envp) = ENOEXEC
         then [Execve path args envp, sh_call path args envp]
         else [Execve path args envp])
      else [Execvp path args envp])"

text \<open>The \<open>errno\<close> one failing attempt leaves: that of its last exec call.\<close>

definition attempt_errno :: "int \<Rightarrow> string \<Rightarrow> string list \<Rightarrow> envptr \<Rightarrow> world \<Rightarrow> int" where
  "attempt_errno mode path args envp w = exec_err w (last (attempt_calls mode path args envp w))"

text \<open>The state after one failing attempt, \<open>errno\<close> of the last call apart.\<close>

definition attempt_world :: "int \<Rightarrow> string \<Rightarrow> string list \<Rightarrow> envptr \<Rightarrow> world \<Rightarrow> world" where
  "attempt_world mode path args envp w =
     (if mode = MODE_VFORK then
        (if exec_err w (Execve path args envp) = ENOEXEC
         then w\<lparr>errno := ENOEXEC, execs := execs w @ attempt_calls mode path args envp w\<rparr>
         else w\<lparr>execs := execs w @ attempt_calls mode path args envp w\<rparr>)
      else w\<lparr>environ := envp, execs := execs w @ attempt_calls mode path args envp w\<rparr>)"








text \<open>The path an exec call is made on.\<close>

fun call_path :: "exec_call \<Rightarrow> string" where
  "call_path (Execve path args envp) = path"
| "call_path (Execvp path args envp) = path"

text \<open>
  No descriptor has been opened, and no close-on-exec flag of a descriptor that is still
  open has been cleared.
\<close>

definition marks_le :: "world \<Rightarrow> world \<Rightarrow> bool" where
  "marks_le w w' =
     ((\<forall>k. is_open w' k \<longrightarrow> is_open w k) \<and> (\<forall>k. is_open w' k \<and> cloexec w k \<longrightarrow> cloexec w' k))"

text \<open>
  The descriptor number \<open>markDescriptorsCloseOnExec\<close> reads from a directory entry (line
  109).
\<close>

definition entry_fd :: "string \<Rightarrow> int" where
  "entry_fd d_name = int_of_long (strtol10 d_name)"

text \<open>The descriptors a new program image inherits: the open ones without \<open>FD_CLOEXEC\<close>.\<close>

definition inherited :: "world \<Rightarrow> int list" where
  "inherited w = map (int \<circ> fst) (filter (\<lambda>(k, e). int (fd_flags e) AND FD_CLOEXEC = 0) (fdtab w))"

text \<open>The frame of one \<open>read\<close>: one more system call, nothing written, the same descriptors.\<close>

definition frame_rd :: "world \<Rightarrow> world \<Rightarrow> bool" where
  "frame_rd w w' = (fault w' = fault w \<and> chunk w' = chunk w \<and> fdtab w' = fdtab w \<and>
                    wlog w' = wlog w \<and> clock w' = Suc (clock w))"

subsection \<open>Example states\<close>

text \<open>
  Standard input, output and error, the child sides of two pipes (5, 6), the write side of
  the failure pipe (7) and one more open file (9); no flag is set.
\<close>

definition ex_fdtab :: "(nat \<times> fdesc) list" where
  "ex_fdtab = [(0, \<lparr>fd_file = 100, fd_flags = 0\<rparr>), (1, \<lparr>fd_file = 101, fd_flags = 0\<rparr>),
               (2, \<lparr>fd_file = 102, fd_flags = 0\<rparr>), (5, \<lparr>fd_file = 50, fd_flags = 0\<rparr>),
               (6, \<lparr>fd_file = 60, fd_flags = 0\<rparr>), (7, \<lparr>fd_file = 70, fd_flags = 0\<rparr>),
               (9, \<lparr>fd_file = 90, fd_flags = 0\<rparr>)]"

text \<open>A state with no fault, in which every exec fails with \<open>ENOENT\<close>.\<close>

definition ex_world :: world where
  "ex_world =
     \<lparr>fdtab = ex_fdtab, errno = 0, environ = Some 1, parentPathv = [''/a'', ''/b''],
      sigmask = {1, 2}, cwd = ''/'', clock = 0, fault = (\<lambda>k. 0), chunk = (\<lambda>k. 100),
      exec_err = (\<lambda>c. ENOENT), chdir_err = (\<lambda>d. 0), readdir_err = (\<lambda>i. 0), open_max = 16,
      wlog = [],
      pending = (\<lambda>f. []), execs = []\<rparr>"

text \<open>
  A launch in \<open>MODE_VFORK\<close>: standard input from 5, standard output to 6, the error stream
  of the parent, the failure pipe on 7, an environment of the launch's own.
\<close>

definition ex_child :: ChildStuff where
  "ex_child =
     \<lparr>in0 = 5, in1 = - 1, out0 = - 1, out1 = 6, err0 = - 1, err1 = - 1, fail0 = - 1, fail1 = 7,
      childenv0 = - 1, childenv1 = - 1, fds0 = - 1, fds1 = - 1, fds2 = 2, c_mode = MODE_VFORK,
      c_argv = [Some ''prog'', Some ''x'', None, None], c_envv = Some 2, c_pdir = None,
      redirectErrorStream = 0, sendAlivePing = 0\<rparr>"

text \<open>The same launch with a parent side of a pipe, \<open>in[1] = 11\<close>, that is not open.\<close>

definition ex_child_stale :: ChildStuff where
  "ex_child_stale = ex_child\<lparr>in1 := 11\<rparr>"




text \<open>Three directories, the second with a slash at its end; the program is in the third.\<close>

definition ex_world_abc :: world where
  "ex_world_abc = ex_world\<lparr>parentPathv := [''/a'', ''/b/'', ''/c''],
      exec_err := (\<lambda>c. if call_path c = ''/c/prog'' then 0 else ENOENT)\<rparr>"

text \<open>Every file is a script, and the shell may not be executed.\<close>

definition ex_world_script :: world where
  "ex_world_script = ex_world\<lparr>exec_err := (\<lambda>c. if call_path c = ''/bin/sh'' then EACCES else ENOEXEC)\<rparr>"

text \<open>
  The descriptor directory cannot be opened (the seventh system call fails with \<open>EMFILE\<close>),
  and \<open>sysconf(_SC_OPEN_MAX)\<close> is 8.
\<close>

definition ex_world_leak :: world where
  "ex_world_leak = ex_world_abc\<lparr>fault := (\<lambda>k. if k = 6 then 24 else 0), open_max := 8\<rparr>"

text \<open>
  Two calls are answered \<open>EINTR\<close>, every transfer is of 2 bytes at most, and 3 bytes are
  left to read from the file behind descriptor 5.
\<close>

definition ex_world_intr :: world where
  "ex_world_intr = ex_world\<lparr>fault := (\<lambda>k. if k < 2 then EINTR else 0), chunk := (\<lambda>k. 1),
      pending := (\<lambda>f. if f = 50 then [1, 2, 3] else [])\<rparr>"

text \<open>One call is answered \<open>EINTR\<close>, every later one \<open>EPIPE\<close>.\<close>

definition ex_world_epipe :: world where
  "ex_world_epipe = ex_world\<lparr>fault := (\<lambda>k. if k = 0 then EINTR else EPIPE)\<rparr>"

text \<open>Every call is answered \<open>EINTR\<close>.\<close>

definition ex_world_stuck :: world where
  "ex_world_stuck = ex_world\<lparr>fault := (\<lambda>k. EINTR)\<rparr>"

text \<open>The second system call fails with \<open>EPIPE\<close>.\<close>

definition ex_world_deaf :: world where
  "ex_world_deaf = ex_world\<lparr>fault := (\<lambda>k. if k = 1 then EPIPE else 0)\<rparr>"

text \<open>Every transfer is of 2 bytes at most, and the third system call fails with \<open>EPIPE\<close>.\<close>

definition ex_world_short :: world where
  "ex_world_short = ex_world\<lparr>chunk := (\<lambda>k. 1), fault := (\<lambda>k. if k = 2 then EPIPE else 0)\<rparr>"

section \<open>Lemmas\<close>

lemma fd_lookup_update:
  "0 \<le> t \<Longrightarrow> fd_lookup (w\<lparr>fdtab := AList.update (nat t) v (fdtab w)\<rparr>) fd
     = (if fd = t then Some v else fd_lookup w fd)"
  by (auto simp: fd_lookup_def update_conv')

lemma fd_lookup_delete:
  "0 \<le> t \<Longrightarrow> fd_lookup (w\<lparr>fdtab := AList.delete (nat t) (fdtab w)\<rparr>) fd
     = (if fd = t then None else fd_lookup w fd)"
  by (auto simp: fd_lookup_def delete_conv')

lemma fd_lookup_frame [simp]:
  "fd_lookup (w\<lparr>clock := c\<rparr>) fd = fd_lookup w fd"
  "fd_lookup (w\<lparr>errno := e\<rparr>) fd = fd_lookup w fd"
  by (simp_all add: fd_lookup_def)

lemma fd_lookup_neg: "fd < 0 \<Longrightarrow> fd_lookup w fd = None"
  by (simp add: fd_lookup_def)

lemma restartableDup2_ok:
  assumes "fault w (clock w) = 0"
  shows "restartableDup2 fd_from fd_to w = Some (sys_dup2 fd_from fd_to w)"
proof -
  have "fst (sys_dup2 fd_from fd_to w) = - 1 \<longrightarrow> errno (snd (sys_dup2 fd_from fd_to w)) = EBADF"
    using assms by (auto simp: sys_dup2_def Let_def split: option.splits)
  then show ?thesis
    by (subst restartableDup2.simps) (auto split: prod.splits)
qed

lemma moveDescriptor_moves:
  assumes ne: "fd_from \<noteq> fd_to" and tpos: "0 \<le> fd_to" and op: "fd_lookup w fd_from = Some e"
    and f0: "fault w (clock w) = 0" and f1: "fault w (Suc (clock w)) = 0"
  shows "\<exists>w'. moveDescriptor fd_from fd_to w = Some (0, w')
           \<and> fd_lookup w' fd_to = Some (e\<lparr>fd_flags := 0\<rparr>)
           \<and> \<not> is_open w' fd_from
           \<and> (\<forall>fd. fd \<noteq> fd_from \<and> fd \<noteq> fd_to \<longrightarrow> fd_lookup w' fd = fd_lookup w fd)"
proof -
  have fpos: "0 \<le> fd_from" using op by (cases "fd_from < 0") (simp_all add: fd_lookup_neg)
  define w1 where "w1 = w\<lparr>clock := Suc (clock w), fdtab := AList.update (nat fd_to) (e\<lparr>fd_flags := 0\<rparr>) (fdtab w)\<rparr>"
  have d: "sys_dup2 fd_from fd_to w = (fd_to, w1)"
    using ne tpos op f0 by (simp add: sys_dup2_def Let_def w1_def)
  have l1: "fd_lookup w1 fd = (if fd = fd_to then Some (e\<lparr>fd_flags := 0\<rparr>) else fd_lookup w fd)" for fd
    using tpos by (auto simp: w1_def fd_lookup_def update_conv')
  have o1: "fd_lookup w1 fd_from = Some e" using ne op by (simp add: l1)
  define w2 where "w2 = w1\<lparr>clock := Suc (clock w1), fdtab := AList.delete (nat fd_from) (fdtab w1)\<rparr>"
  have c: "sys_close fd_from w1 = (0, w2)"
    using o1 f1 by (simp add: sys_close_def Let_def w2_def w1_def)
  have l2: "fd_lookup w2 fd = (if fd = fd_from then None else fd_lookup w1 fd)" for fd
    using fpos by (auto simp: w2_def fd_lookup_def delete_conv')
  have "moveDescriptor fd_from fd_to w = Some (0, w2)"
    using ne tpos by (simp add: moveDescriptor_def restartableDup2_ok [OF f0] d c)
  then show ?thesis
    using ne by (auto simp: l1 l2 is_open_def)
qed

lemma frame_refl [simp]: "frame w w"
  by (simp add: frame_def)

lemma frame_trans: "frame w w1 \<Longrightarrow> frame w1 w2 \<Longrightarrow> frame w w2"
  by (simp add: frame_def)

lemma frame_quiet: "frame w w' \<Longrightarrow> quiet w' = quiet w"
  by (simp add: frame_def quiet_def)

lemma frame_sys_dup2: "frame w (snd (sys_dup2 a b w))"
  by (simp add: sys_dup2_def frame_def Let_def split: option.splits)

lemma frame_sys_close: "frame w (snd (sys_close a w))"
  by (simp add: sys_close_def frame_def Let_def split: option.splits)

lemma frame_closeSafely: "frame w (snd (closeSafely a w))"
  by (simp add: closeSafely_def frame_sys_close)

lemma frame_markCloseOnExec: "frame w (snd (markCloseOnExec a w))"
  by (simp add: markCloseOnExec_def sys_fcntl_getfd_def sys_fcntl_setfd_def frame_def
      split: option.splits prod.splits)

lemma frame_sys_closedir: "frame w (sys_closedir dp w)"
  by (simp add: sys_closedir_def frame_def)

lemma frame_sys_readdir: "frame w (snd (sys_readdir i ents w))"
  by (simp add: sys_readdir_def frame_def split: list.splits)

lemma mark_loop_stop:
  "readdir_err w i \<noteq> 0 \<Longrightarrow>
     markDescriptorsCloseOnExec_loop dp i ents w =
       (0, sys_closedir dp (w\<lparr>errno := readdir_err w i\<rparr>))"
  by (cases ents) (simp_all add: sys_readdir_def)

lemma mark_loop_end:
  "readdir_err w i = 0 \<Longrightarrow> markDescriptorsCloseOnExec_loop dp i [] w = (0, sys_closedir dp w)"
  by (simp add: sys_readdir_def)

lemma mark_loop_step:
  "readdir_err w i = 0 \<Longrightarrow>
     markDescriptorsCloseOnExec_loop dp i (d # rest) w =
       (if isAsciiDigit (first_char d) \<and> int_of_long (strtol10 d) \<ge> 3 then
          (case markCloseOnExec (int_of_long (strtol10 d)) w of
             (r, w') \<Rightarrow>
               if r = - 1 then (- 1, sys_closedir dp w')
               else markDescriptorsCloseOnExec_loop dp (Suc i) rest w')
        else markDescriptorsCloseOnExec_loop dp (Suc i) rest w)"
  by (simp add: sys_readdir_def Let_def)

declare markDescriptorsCloseOnExec_loop.simps [simp del]

lemma frame_mark_loop: "frame w (snd (markDescriptorsCloseOnExec_loop dp i es w))"
proof (induction es arbitrary: w i)
  case Nil
  show ?case
    by (cases "readdir_err w i = 0")
       (simp_all add: mark_loop_stop mark_loop_end sys_closedir_def frame_def)
next
  case (Cons e es)
  show ?case
  proof (cases "readdir_err w i = 0")
    case False
    then show ?thesis by (simp add: mark_loop_stop sys_closedir_def frame_def)
  next
    case ok: True
    show ?thesis
    proof (cases "isAsciiDigit (first_char e) \<and> int_of_long (strtol10 e) \<ge> 3")
      case False
      then show ?thesis using Cons.IH [of w "Suc i"] ok by (auto simp add: mark_loop_step)
    next
      case True
      obtain r w' where m: "markCloseOnExec (int_of_long (strtol10 e)) w = (r, w')"
        by (cases "markCloseOnExec (int_of_long (strtol10 e)) w")
      have f1: "frame w w'"
        using frame_markCloseOnExec [of w "int_of_long (strtol10 e)"] by (simp add: m)
      show ?thesis
      proof (cases "r = - 1")
        case T: True
        have "frame w (sys_closedir dp w')"
          using f1 frame_sys_closedir by (rule frame_trans)
        then show ?thesis using True m T ok by (simp add: mark_loop_step)
      next
        case F: False
        have "frame w (snd (markDescriptorsCloseOnExec_loop dp (Suc i) es w'))"
          using f1 Cons.IH by (rule frame_trans)
        then show ?thesis using True m F ok by (simp add: mark_loop_step)
      qed
    qed
  qed
qed

lemma frame0_refl [simp]: "frame0 w w"
  by (simp add: frame0_def)

lemma frame0_trans: "frame0 w w1 \<Longrightarrow> frame0 w1 w2 \<Longrightarrow> frame0 w w2"
  by (simp add: frame0_def)

lemma frame0_fd_lookup: "frame0 w w' \<Longrightarrow> fd_lookup w' fd = fd_lookup w fd"
  by (simp add: frame0_def fd_lookup_def)

lemma frame0_is_open: "frame0 w w' \<Longrightarrow> is_open w' fd = is_open w fd"
  by (simp add: is_open_def frame0_fd_lookup)

lemma frame0_chan: "frame0 w w' \<Longrightarrow> chan w' fd = chan w fd"
  by (simp add: frame0_def chan_def fd_lookup_def)

text \<open>One write: what it returns and what it appends.\<close>

lemma sys_write_cases:
  assumes "sys_write fd buf w = (n, w')"
  shows "frame0 w w' \<and> clock w' = Suc (clock w) \<and>
         ((n = - 1 \<and> wlog w' = wlog w \<and> (fault w (clock w) \<noteq> 0 \<longrightarrow> errno w' = fault w (clock w))
             \<and> (fault w (clock w) = 0 \<longrightarrow> errno w' = EBADF \<and> \<not> is_open w fd)) \<or>
          (0 \<le> n \<and> nat n \<le> length buf \<and> (buf \<noteq> [] \<longrightarrow> 0 < n) \<and> fault w (clock w) = 0 \<and> is_open w fd \<and>
           wlog w' = wlog w @ map (Pair (chan w fd)) (take (nat n) buf)))"
  using assms
  by (auto simp: sys_write_def Let_def frame0_def chan_def is_open_def split: if_splits option.splits)

lemma writeFully_loop_Some:
  assumes "writeFully_loop fd nbyte remaining buf w = Some y"
  shows "frame0 w (snd y) \<and>
         (\<exists>bs. prefix bs (take (nat remaining) buf) \<and>
               wlog (snd y) = wlog w @ map (Pair (chan w fd)) bs \<and>
               (fst y = int nbyte \<longrightarrow> bs = take (nat remaining) buf) \<and>
               (fst y \<noteq> int nbyte \<longrightarrow> fst y = - 1))"
  using assms
proof (induction rule: writeFully_loop.raw_induct [rotated 1, consumes 1])
  case (1 loop fd nbyte remaining buf w y)
  obtain n w1 where sw: "sys_write fd (take (nat remaining) buf) w = (n, w1)"
    by (cases "sys_write fd (take (nat remaining) buf) w")
  note c = sys_write_cases [OF sw]
  from c have f1: "frame0 w w1" by simp
  show ?case
  proof (cases "n > 0")
    case True
    with c have wl: "wlog w1 = wlog w @ map (Pair (chan w fd)) (take (nat n) (take (nat remaining) buf))"
      and nle: "nat n \<le> length (take (nat remaining) buf)" by auto
    show ?thesis
    proof (cases "remaining - n \<le> 0")
      case True
      have y: "y = (int nbyte, w1)" using 1(2) sw \<open>n > 0\<close> True by simp
      have "n = remaining" using True nle \<open>n > 0\<close> by auto
      then have "take (nat n) (take (nat remaining) buf) = take (nat remaining) buf"
        by simp
      then show ?thesis using y f1 wl by auto
    next
      case False
      have rec: "loop fd nbyte (remaining - n) (drop (nat n) buf) w1 = Some y"
        using 1(2) sw \<open>n > 0\<close> False by simp
      from 1(1) [OF rec] obtain bs where
        f2: "frame0 w1 (snd y)" and
        p: "prefix bs (take (nat (remaining - n)) (drop (nat n) buf))" and
        wl2: "wlog (snd y) = wlog w1 @ map (Pair (chan w1 fd)) bs" and
        full: "fst y = int nbyte \<longrightarrow> bs = take (nat (remaining - n)) (drop (nat n) buf)" and
        err: "fst y \<noteq> int nbyte \<longrightarrow> fst y = - 1" by blast
      have split: "take (nat remaining) buf = take (nat n) buf @ take (nat (remaining - n)) (drop (nat n) buf)"
      proof -
        have "nat remaining = nat n + nat (remaining - n)" using False \<open>n > 0\<close> by simp
        then show ?thesis by (simp add: take_add)
      qed
      have tk: "take (nat n) (take (nat remaining) buf) = take (nat n) buf"
        using False \<open>n > 0\<close> by (simp add: min_def)
      let ?bs = "take (nat n) buf @ bs"
      have "prefix ?bs (take (nat remaining) buf)" using p split by simp
      moreover have "wlog (snd y) = wlog w @ map (Pair (chan w fd)) ?bs"
        using wl wl2 tk frame0_chan [OF f1] by simp
      moreover have "fst y = int nbyte \<longrightarrow> ?bs = take (nat remaining) buf" using full split by simp
      ultimately show ?thesis using frame0_trans [OF f1 f2] err by blast
    qed
  next
    case False
    show ?thesis
    proof (cases "n = - 1 \<and> errno w1 = EINTR")
      case True
      have rec: "loop fd nbyte remaining buf w1 = Some y"
        using 1(2) sw False True by simp
      from True c have wl: "wlog w1 = wlog w" by auto
      from 1(1) [OF rec] show ?thesis
        using frame0_trans [OF f1] wl frame0_chan [OF f1] by auto
    next
      case F2: False
      have y: "y = (- 1, w1)" using 1(2) sw False F2 by auto
      from False c have "wlog w1 = wlog w @ map (Pair (chan w fd)) []"
        by auto
      then show ?thesis using y f1 by (intro conjI exI [of _ "[]"]) auto
    qed
  qed
qed

lemma writeFully_loop_total:
  assumes "\<forall>k\<ge>N. fault w k \<noteq> EINTR"
  shows "writeFully_loop fd nbyte remaining buf w \<noteq> None"
  using assms
proof (induction "(N - clock w) + nat remaining" arbitrary: remaining buf w rule: less_induct)
  case less
  obtain n w1 where sw: "sys_write fd (take (nat remaining) buf) w = (n, w1)"
    by (cases "sys_write fd (take (nat remaining) buf) w")
  note c = sys_write_cases [OF sw]
  from c have f1: "frame0 w w1" and ck: "clock w1 = Suc (clock w)" by simp_all
  have q1: "\<forall>k\<ge>N. fault w1 k \<noteq> EINTR" using less.prems f1 by (simp add: frame0_def)
  show ?case
  proof (cases "n > 0")
    case True
    show ?thesis
    proof (cases "remaining - n \<le> 0")
      case True
      then show ?thesis using sw \<open>n > 0\<close> by (subst writeFully_loop.simps) simp
    next
      case False
      have "(N - clock w1) + nat (remaining - n) < (N - clock w) + nat remaining"
        using ck False \<open>n > 0\<close> by simp
      from less.hyps [OF this q1]
      show ?thesis using sw \<open>n > 0\<close> False by (subst writeFully_loop.simps) simp
    qed
  next
    case False
    show ?thesis
    proof (cases "n = - 1 \<and> errno w1 = EINTR")
      case True
      with c have "fault w (clock w) = EINTR" by (auto split: if_splits)
      with less.prems have "clock w < N" by (meson not_le)
      then have "(N - clock w1) + nat remaining < (N - clock w) + nat remaining"
        using ck by simp
      from less.hyps [OF this q1]
      show ?thesis using sw False True by (subst writeFully_loop.simps) simp
    next
      case F2: False
      then show ?thesis using sw False by (subst writeFully_loop.simps) auto
    qed
  qed
qed

lemma writeFully_loop_complete:
  assumes "writeFully_loop fd nbyte remaining buf w = Some y"
    and "\<forall>k\<ge>clock w. fault w k = 0 \<or> fault w k = EINTR"
    and "is_open w fd" and "0 < remaining" and "nat remaining \<le> length buf"
  shows "fst y = int nbyte"
  using assms
proof (induction rule: writeFully_loop.raw_induct [rotated 1, consumes 1])
  case (1 loop fd nbyte remaining buf w y)
  obtain n w1 where sw: "sys_write fd (take (nat remaining) buf) w = (n, w1)"
    by (cases "sys_write fd (take (nat remaining) buf) w")
  note c = sys_write_cases [OF sw]
  from c have f1: "frame0 w w1" and ck: "clock w1 = Suc (clock w)" by simp_all
  have q1: "\<forall>k\<ge>clock w1. fault w1 k = 0 \<or> fault w1 k = EINTR"
    using 1(3) f1 ck by (simp add: frame0_def)
  have o1: "is_open w1 fd" using 1(4) f1 by (simp add: frame0_is_open)
  have ne: "take (nat remaining) buf \<noteq> []" using 1(5,6) by auto
  have fl: "fault w (clock w) = 0 \<or> fault w (clock w) = EINTR" using 1(3) by simp
  show ?case
  proof (cases "n > 0")
    case True
    with c have nle: "nat n \<le> length (take (nat remaining) buf)" by auto
    show ?thesis
    proof (cases "remaining - n \<le> 0")
      case True
      then show ?thesis using 1(2) sw \<open>n > 0\<close> by auto
    next
      case False
      have rec: "loop fd nbyte (remaining - n) (drop (nat n) buf) w1 = Some y"
        using 1(2) sw \<open>n > 0\<close> False by simp
      have "nat (remaining - n) \<le> length (drop (nat n) buf)" using 1(6) False \<open>n > 0\<close> by simp
      with 1(1) [OF rec q1 o1] False show ?thesis by simp
    qed
  next
    case False
    with c ne 1(4) fl have ei: "n = - 1 \<and> errno w1 = EINTR" by auto
    then have rec: "loop fd nbyte remaining buf w1 = Some y"
      using 1(2) sw False by simp
    from 1(1) [OF rec q1 o1 1(5) 1(6)] show ?thesis .
  qed
qed

lemma writeFully_loop_forever:
  assumes "\<forall>k\<ge>clock w. fault w k = EINTR"
  shows "writeFully_loop fd nbyte remaining buf w = None"
proof (rule ccontr)
  assume "writeFully_loop fd nbyte remaining buf w \<noteq> None"
  then obtain y where "writeFully_loop fd nbyte remaining buf w = Some y" by auto
  then have "\<not> (\<forall>k\<ge>clock w. fault w k = EINTR)"
  proof (induction rule: writeFully_loop.raw_induct [rotated 1, consumes 1])
    case (1 loop fd nbyte remaining buf w y)
    show ?case
    proof
      assume a: "\<forall>k\<ge>clock w. fault w k = EINTR"
      obtain n w1 where sw: "sys_write fd (take (nat remaining) buf) w = (n, w1)"
        by (cases "sys_write fd (take (nat remaining) buf) w")
      note c = sys_write_cases [OF sw]
      from a have "fault w (clock w) = EINTR" by simp
      with c have n: "n = - 1" and e: "errno w1 = EINTR" by auto
      from c have f1: "frame0 w w1" and ck: "clock w1 = Suc (clock w)" by simp_all
      have rec: "loop fd nbyte remaining buf w1 = Some y" using 1(2) sw n e by simp
      have "\<forall>k\<ge>clock w1. fault w1 k = EINTR" using a f1 ck by (simp add: frame0_def)
      with 1(1) [OF rec] show False by simp
    qed
  qed
  with assms show False by simp
qed

lemma sys_dup2_EINTR:
  "sys_dup2 a b w = (r, w') \<Longrightarrow> r = - 1 \<Longrightarrow> errno w' = EINTR \<Longrightarrow> fault w (clock w) = EINTR"
  by (auto simp: sys_dup2_def Let_def split: if_splits option.splits)

lemma sys_dup2_clock: "clock (snd (sys_dup2 a b w)) = Suc (clock w)"
  by (simp add: sys_dup2_def Let_def split: option.splits)

lemma restartableDup2_Some:
  assumes "restartableDup2 a b w = Some y"
  shows "frame w (snd y)"
  using assms
proof (induction rule: restartableDup2.raw_induct [rotated 1, consumes 1])
  case (1 loop a b w y)
  obtain r w1 where d: "sys_dup2 a b w = (r, w1)" by (cases "sys_dup2 a b w")
  have f1: "frame w w1" using frame_sys_dup2 [of w a b] d by simp
  show ?case
  proof (cases "r = - 1 \<and> errno w1 = EINTR")
    case True
    then have "loop a b w1 = Some y" using 1(2) d by simp
    from frame_trans [OF f1 1(1) [OF this]] show ?thesis .
  next
    case False
    then have "y = (r, w1)" using 1(2) d by auto
    then show ?thesis using f1 by simp
  qed
qed

lemma restartableDup2_total:
  assumes "\<forall>k\<ge>N. fault w k \<noteq> EINTR"
  shows "restartableDup2 a b w \<noteq> None"
  using assms
proof (induction "N - clock w" arbitrary: w rule: less_induct)
  case less
  obtain r w1 where d: "sys_dup2 a b w = (r, w1)" by (cases "sys_dup2 a b w")
  have f1: "frame w w1" using frame_sys_dup2 [of w a b] d by simp
  have ck: "clock w1 = Suc (clock w)" using sys_dup2_clock [of a b w] d by simp
  show ?case
  proof (cases "r = - 1 \<and> errno w1 = EINTR")
    case True
    then have "fault w (clock w) = EINTR" using sys_dup2_EINTR [OF d] by simp
    with less.prems have "clock w < N" by (meson not_le)
    then have m: "N - clock w1 < N - clock w" using ck by simp
    have "\<forall>k\<ge>N. fault w1 k \<noteq> EINTR" using less.prems f1 by (simp add: frame_def)
    from less.hyps [OF m this] show ?thesis
      using d True by (subst restartableDup2.simps) simp
  next
    case False
    then show ?thesis using d by (subst restartableDup2.simps) auto
  qed
qed

lemma moveDescriptor_Some:
  assumes "moveDescriptor a b w = Some y"
  shows "frame w (snd y)"
proof (cases "a = b")
  case True
  then show ?thesis using assms by (auto simp add: moveDescriptor_def)
next
  case False
  then obtain r w1 where d: "restartableDup2 a b w = Some (r, w1)"
    using assms by (auto simp: moveDescriptor_def split: option.splits)
  have f1: "frame w w1" using restartableDup2_Some [OF d] by simp
  show ?thesis
  proof (cases "r = - 1")
    case True
    then show ?thesis using assms False d f1 by (auto simp: moveDescriptor_def)
  next
    case F: False
    obtain c w2 where cl: "sys_close a w1 = (c, w2)" by (cases "sys_close a w1")
    have "frame w1 w2" using frame_sys_close [of w1 a] cl by simp
    then have "frame w w2" using f1 frame_trans by blast
    moreover have "moveDescriptor a b w = Some (if c = - 1 then - 1 else 0, w2)"
      using False d F cl by (simp add: moveDescriptor_def)
    with assms have "snd y = w2" by auto
    ultimately show ?thesis by simp
  qed
qed

lemma moveDescriptor_total:
  assumes "quiet w"
  shows "moveDescriptor a b w \<noteq> None"
proof -
  from assms obtain N where "\<forall>k\<ge>N. fault w k \<noteq> EINTR" by (auto simp: quiet_def)
  from restartableDup2_total [OF this, of a b] show ?thesis
    by (auto simp: moveDescriptor_def split: option.splits prod.splits)
qed

lemma cond_frame_fails: "(\<And>w. frame w (snd (f w))) \<Longrightarrow> cond_frame (fails f)"
  by (auto simp: cond_frame_def fails_def split: prod.splits) (metis snd_conv)

lemma cond_total_fails: "cond_total (fails f)"
  by (simp add: cond_total_def fails_def split: prod.splits)

lemma cond_frame_fails_opt:
  "(\<And>w y. f w = Some y \<Longrightarrow> frame w (snd y)) \<Longrightarrow> cond_frame (fails_opt f)"
  by (fastforce simp: cond_frame_def fails_opt_def split: option.splits prod.splits)

lemma cond_total_fails_opt:
  assumes "\<And>w. quiet w \<Longrightarrow> f w \<noteq> None"
  shows "cond_total (fails_opt f)"
proof -
  have "fails_opt f w \<noteq> None" if "quiet w" for w
    using assms [OF that] by (auto simp: fails_opt_def split: option.splits prod.splits)
  then show ?thesis by (simp add: cond_total_def)
qed

lemma cond_frame_orelse:
  assumes "cond_frame a" and "cond_frame b"
  shows "cond_frame (orelse a b)"
proof -
  have "frame w w'" if "orelse a b w = Some (r, w')" for w r w'
  proof -
    from that obtain r1 w1 where a: "a w = Some (r1, w1)"
      by (auto simp: orelse_def split: option.splits)
    then have f1: "frame w w1" using assms(1) by (simp add: cond_frame_def)
    show ?thesis
    proof (cases r1)
      case True
      then show ?thesis using that a f1 by (simp add: orelse_def)
    next
      case False
      then have "b w1 = Some (r, w')" using that a by (simp add: orelse_def)
      then have "frame w1 w'" using assms(2) by (simp add: cond_frame_def)
      with f1 show ?thesis by (rule frame_trans)
    qed
  qed
  then show ?thesis by (simp add: cond_frame_def)
qed

lemma cond_total_orelse:
  assumes "cond_total a" and "cond_frame a" and "cond_total b"
  shows "cond_total (orelse a b)"
proof -
  have "orelse a b w \<noteq> None" if q: "quiet w" for w
  proof -
    from q assms(1) obtain r1 w1 where a: "a w = Some (r1, w1)"
      by (auto simp: cond_total_def)
    then have "frame w w1" using assms(2) by (simp add: cond_frame_def)
    then have "quiet w1" using q by (simp add: frame_quiet)
    then have "b w1 \<noteq> None" using assms(3) by (simp add: cond_total_def)
    then show ?thesis using a by (auto simp add: orelse_def)
  qed
  then show ?thesis by (simp add: cond_total_def)
qed

lemma cf_closeSafely: "cond_frame (fails (closeSafely fd))"
  by (rule cond_frame_fails) (rule frame_closeSafely)

lemma cf_moveDescriptor: "cond_frame (fails_opt (moveDescriptor a b))"
  by (rule cond_frame_fails_opt) (rule moveDescriptor_Some)

lemma ct_moveDescriptor: "cond_total (fails_opt (moveDescriptor a b))"
  by (rule cond_total_fails_opt) (rule moveDescriptor_total)

lemma cf_restartableDup2: "cond_frame (fails_opt (restartableDup2 a b))"
  by (rule cond_frame_fails_opt) (rule restartableDup2_Some)

lemma ct_restartableDup2: "cond_total (fails_opt (restartableDup2 a b))"
proof (rule cond_total_fails_opt)
  fix w assume "quiet w"
  then obtain N where "\<forall>k\<ge>N. fault w k \<noteq> EINTR" by (auto simp: quiet_def)
  then show "restartableDup2 a b w \<noteq> None" by (rule restartableDup2_total)
qed

lemma cf_close_parent_sides: "cond_frame (childProcess_close_parent_sides p)"
  unfolding childProcess_close_parent_sides_def
  by (intro cond_frame_orelse cf_closeSafely)

lemma ct_close_parent_sides: "cond_total (childProcess_close_parent_sides p)"
  unfolding childProcess_close_parent_sides_def
  by (intro cond_total_orelse cf_closeSafely cond_total_fails)

lemma cf_stdin_stdout: "cond_frame (childProcess_stdin_stdout p)"
  unfolding childProcess_stdin_stdout_def
  by (intro cond_frame_orelse cf_moveDescriptor)

lemma ct_stdin_stdout: "cond_total (childProcess_stdin_stdout p)"
  unfolding childProcess_stdin_stdout_def
  by (intro cond_total_orelse cf_moveDescriptor ct_moveDescriptor)

lemma cf_stderr: "cond_frame (childProcess_stderr p)"
  unfolding childProcess_stderr_def
  by (auto intro!: cond_frame_orelse cf_moveDescriptor cf_closeSafely cf_restartableDup2)

lemma ct_stderr: "cond_total (childProcess_stderr p)"
  unfolding childProcess_stderr_def
  by (auto intro!: cond_total_orelse cf_closeSafely cond_total_fails ct_moveDescriptor ct_restartableDup2)

lemma frame_close_the_old_way: "frame w (snd (close_the_old_way fd max_fd w))"
proof (induction fd max_fd w rule: close_the_old_way.induct)
  case (1 fd max_fd w)
  show ?case
  proof (cases "fd < max_fd")
    case False
    then show ?thesis by (subst close_the_old_way.simps) simp
  next
    case True
    obtain r w' where m: "markCloseOnExec fd w = (r, w')" by (cases "markCloseOnExec fd w")
    have f1: "frame w w'" using frame_markCloseOnExec [of w fd] m by simp
    show ?thesis
    proof (cases "r = - 1 \<and> errno w' \<noteq> EBADF")
      case T2: True
      then show ?thesis using True m f1 by (subst close_the_old_way.simps) simp
    next
      case False
      from "1.IH" [OF True m [symmetric] False]
      have "frame w' (snd (close_the_old_way (fd + 1) max_fd w'))" .
      then have "frame w (snd (close_the_old_way (fd + 1) max_fd w'))"
        using f1 frame_trans by blast
      then show ?thesis using True m False by (subst close_the_old_way.simps) auto
    qed
  qed
qed

lemma frame_sys_opendir_fd: "frame w (snd (sys_opendir_fd w))"
  by (simp add: sys_opendir_fd_def Let_def frame_def)

lemma frame_markDescriptorsCloseOnExec: "frame w (snd (markDescriptorsCloseOnExec w))"
proof -
  obtain d w1 where o: "sys_opendir_fd w = (d, w1)" by (cases "sys_opendir_fd w")
  have f1: "frame w w1" using frame_sys_opendir_fd [of w] o by simp
  show ?thesis
  proof (cases d)
    case None
    then show ?thesis using o f1 by (simp add: markDescriptorsCloseOnExec_def)
  next
    case (Some dp)
    have "frame w1 (snd (markDescriptorsCloseOnExec_loop dp 0 (dir_ents dp) w1))"
      by (rule frame_mark_loop)
    with f1 have "frame w (snd (markDescriptorsCloseOnExec_loop dp 0 (dir_ents dp) w1))"
      by (rule frame_trans)
    then show ?thesis using o Some by (simp add: markDescriptorsCloseOnExec_def)
  qed
qed

lemma cf_close_everything: "cond_frame childProcess_close_everything"
proof -
  have "frame w w'" if "childProcess_close_everything w = Some (r, w')" for w r w'
  proof -
    obtain r1 w1 where m: "markDescriptorsCloseOnExec w = (r1, w1)"
      by (cases "markDescriptorsCloseOnExec w")
    have f1: "frame w w1" using frame_markDescriptorsCloseOnExec [of w] m by simp
    show ?thesis
    proof (cases "r1 = - 1")
      case True
      then have "w' = snd (close_the_old_way 3 (int_of_long (open_max w1)) w1)"
        using that m by (auto simp: childProcess_close_everything_def Let_def)
      then show ?thesis using f1 frame_close_the_old_way frame_trans by blast
    next
      case False
      then show ?thesis using that m f1 by (auto simp: childProcess_close_everything_def)
    qed
  qed
  then show ?thesis by (auto simp: cond_frame_def)
qed

lemma ct_close_everything: "cond_total childProcess_close_everything"
  by (auto simp add: cond_total_def childProcess_close_everything_def Let_def split: prod.splits)

lemma cf_chdir: "cond_frame (childProcess_chdir p)"
  by (auto simp: cond_frame_def childProcess_chdir_def sys_chdir_def frame_def
      split: option.splits if_splits)

lemma ct_chdir: "cond_total (childProcess_chdir p)"
  by (auto simp add: cond_total_def childProcess_chdir_def split: option.splits prod.splits)

lemma xframe_refl [simp]: "xframe w w"
  by (simp add: xframe_def)

lemma xframe_trans: "xframe w w1 \<Longrightarrow> xframe w1 w2 \<Longrightarrow> xframe w w2"
  by (auto simp: xframe_def intro: frame_trans)

lemma exec_frame_trans: "xframe w w1 \<Longrightarrow> exec_frame w1 r \<Longrightarrow> exec_frame w r"
  by (auto simp: exec_frame_def split: sum.splits outcome.splits intro: xframe_trans)

lemma sys_execve_cases:
  "sys_execve path av envp w =
     (if exec_err w (Execve path (cvec av) envp) = 0
      then Inl (Execd (Execve path (cvec av) envp) (w\<lparr>execs := execs w @ [Execve path (cvec av) envp]\<rparr>))
      else Inr (w\<lparr>execs := execs w @ [Execve path (cvec av) envp],
                  errno := exec_err w (Execve path (cvec av) envp)\<rparr>))"
  by (simp add: sys_execve_def Let_def)

lemma sys_execvp_cases:
  "sys_execvp file av w =
     (if exec_err w (Execvp file (cvec av) (environ w)) = 0
      then Inl (Execd (Execvp file (cvec av) (environ w)) (w\<lparr>execs := execs w @ [Execvp file (cvec av) (environ w)]\<rparr>))
      else Inr (w\<lparr>execs := execs w @ [Execvp file (cvec av) (environ w)],
                  errno := exec_err w (Execvp file (cvec av) (environ w))\<rparr>))"
  by (simp add: sys_execvp_def Let_def)

lemma ef_shell_script: "exec_frame w (execve_as_traditional_shell_script file av envp w)"
  by (simp add: execve_as_traditional_shell_script_def Let_def sys_execve_cases
      exec_frame_def xframe_def frame_def)

lemma ef_shell_fallback: "exec_frame w (execve_with_shell_fallback mode file av envp w)"
proof (cases "mode = MODE_VFORK")
  case False
  then show ?thesis
    by (simp add: execve_with_shell_fallback_def sys_execvp_cases exec_frame_def xframe_def frame_def)
next
  case True
  show ?thesis
  proof (cases "exec_err w (Execve file (cvec av) envp) = 0")
    case T: True
    then show ?thesis using True
      by (simp add: execve_with_shell_fallback_def sys_execve_cases exec_frame_def xframe_def frame_def)
  next
    case False
    let ?w1 = "w\<lparr>execs := execs w @ [Execve file (cvec av) envp],
                  errno := exec_err w (Execve file (cvec av) envp)\<rparr>"
    have x: "xframe w ?w1" by (simp add: xframe_def frame_def)
    have "exec_frame ?w1 (execve_as_traditional_shell_script file av envp ?w1)"
      by (rule ef_shell_script)
    with x have "exec_frame w (execve_as_traditional_shell_script file av envp ?w1)"
      by (rule exec_frame_trans)
    moreover have "exec_frame w (Inr (av, ?w1))" using x by (simp add: exec_frame_def)
    ultimately show ?thesis using True False
      by (cases "exec_err w (Execve file (cvec av) envp) = ENOEXEC")
         (simp_all add: execve_with_shell_fallback_def sys_execve_cases)
  qed
qed

lemma ef_loop: "exec_frame w (JDK_execvpe_loop mode file envp dirs sticky av w)"
proof (induction dirs arbitrary: sticky av w)
  case Nil
  show ?case by (simp add: exec_frame_def xframe_def frame_def)
next
  case (Cons dir dirs)
  show ?case
  proof (cases "int (length file) + int (length dir) + 2 \<ge> PATH_MAX")
    case True
    have "xframe w (w\<lparr>errno := ENAMETOOLONG\<rparr>)" by (simp add: xframe_def frame_def)
    from exec_frame_trans [OF this Cons.IH] show ?thesis using True by (simp add: Let_def)
  next
    case False
    let ?r = "execve_with_shell_fallback mode (expanded_file dir file) av envp w"
    have ef: "exec_frame w ?r" by (rule ef_shell_fallback)
    show ?thesis
    proof (cases ?r)
      case (Inl out)
      then show ?thesis using False ef by (simp add: Let_def)
    next
      case (Inr b)
      obtain av' w' where b: "b = (av', w')" by (cases b)
      have x: "xframe w w'" using ef Inr b by (simp add: exec_frame_def)
      have "exec_frame w (JDK_execvpe_loop mode file envp dirs s av' w')" for s
        using exec_frame_trans [OF x Cons.IH] .
      moreover have "exec_frame w (Inr (av', w'))" using x by (simp add: exec_frame_def)
      ultimately show ?thesis using False Inr b by (simp add: Let_def)
    qed
  qed
qed

lemma ef_JDK_execvpe: "exec_frame w (JDK_execvpe mode file av envp w)"
proof -
  have "exec_frame w (case sys_execvp file av w of Inl out \<Rightarrow> Inl out | Inr w1 \<Rightarrow> Inr (av, w1))"
    by (simp add: sys_execvp_cases exec_frame_def xframe_def frame_def)
  moreover have "exec_frame w (Inr (av, w\<lparr>errno := ENOENT\<rparr>))"
    by (simp add: exec_frame_def xframe_def frame_def)
  ultimately show ?thesis
    by (simp add: JDK_execvpe_def ef_shell_fallback ef_loop)
qed

lemma errno_reportI: "prefix bs (int_bytes e) \<Longrightarrow> errno_report (map (Pair f) bs)"
  by (auto simp: errno_report_def)

lemma length_int_bytes [simp]: "length (int_bytes x) = 4"
  by (simp add: int_bytes_def)

lemma frame0_quiet: "frame0 w w' \<Longrightarrow> quiet w' = quiet w"
  by (simp add: frame0_def quiet_def)

lemma sys_close_closes: "\<not> is_open (snd (sys_close fd w)) fd"
proof (cases "fd_lookup w fd")
  case None
  then show ?thesis by (simp add: sys_close_def Let_def is_open_def)
next
  case (Some e)
  then have "0 \<le> fd" by (cases "fd < 0") (simp_all add: fd_lookup_neg)
  then show ?thesis using Some
    by (simp add: sys_close_def Let_def is_open_def fd_lookup_def delete_conv')
qed

lemma sys_close_frame0ish:
  "wlog (snd (sys_close fd w)) = wlog w \<and> sigmask (snd (sys_close fd w)) = sigmask w"
  by (simp add: sys_close_def Let_def split: option.splits)

lemma writeFully_Some:
  assumes "writeFully fd buf nbyte w = Some (r, w')"
  shows "frame0 w w' \<and>
         (\<exists>bs. prefix bs (take nbyte buf) \<and> wlog w' = wlog w @ map (Pair (chan w fd)) bs \<and>
               (r = int nbyte \<longrightarrow> bs = take nbyte buf) \<and> (r \<noteq> int nbyte \<longrightarrow> r = - 1))"
  using writeFully_loop_Some [of fd nbyte "int nbyte" buf w "(r, w')"] assms
  by (simp add: writeFully_def)

lemma writeFully_total: "quiet w \<Longrightarrow> writeFully fd buf nbyte w \<noteq> None"
  unfolding quiet_def writeFully_def
  using writeFully_loop_total by blast

lemma tail_Some:
  assumes "WhyCantJohnnyExec fd w = Some out"
  shows "\<exists>w' bs. out = Exited (- 1) w' \<and> prefix bs (int_bytes (errno w)) \<and>
           wlog w' = wlog w @ map (Pair (chan w fd)) bs \<and> sigmask w' = sigmask w \<and>
           \<not> is_open w' fd"
proof -
  from assms obtain r w1 where wf: "writeFully fd (int_bytes (errno w)) sizeof_int w = Some (r, w1)"
    by (auto simp: WhyCantJohnnyExec_def Let_def split: option.splits)
  obtain c w2 where cl: "sys_close fd w1 = (c, w2)" by (cases "sys_close fd w1")
  have out: "out = Exited (- 1) w2" using assms wf cl by (simp add: WhyCantJohnnyExec_def Let_def)
  from writeFully_Some [OF wf] obtain bs where
    f0: "frame0 w w1" and p: "prefix bs (int_bytes (errno w))"
    and wl: "wlog w1 = wlog w @ map (Pair (chan w fd)) bs" by auto
  have "wlog w2 = wlog w1" "sigmask w2 = sigmask w1" "\<not> is_open w2 fd"
    using sys_close_frame0ish [of fd w1] sys_close_closes [of fd w1] cl by simp_all
  then show ?thesis using out p wl f0 by (auto simp: frame0_def)
qed

lemma tail_total: "quiet w \<Longrightarrow> WhyCantJohnnyExec fd w \<noteq> None"
  using writeFully_total [of w fd "int_bytes (errno w)" sizeof_int]
  by (auto simp: WhyCantJohnnyExec_def Let_def split: option.splits prod.splits)

lemma tail_exact:
  assumes op: "is_open w fd" and q: "quiet w"
    and fl: "\<forall>k\<ge>clock w. fault w k = 0 \<or> fault w k = EINTR"
  shows "\<exists>w'. WhyCantJohnnyExec fd w = Some (Exited (- 1) w') \<and>
           wlog w' = wlog w @ map (Pair (chan w fd)) (int_bytes (errno w)) \<and> \<not> is_open w' fd"
proof -
  from tail_total [OF q] obtain out where t: "WhyCantJohnnyExec fd w = Some out" by auto
  then obtain r w1 where wf: "writeFully fd (int_bytes (errno w)) sizeof_int w = Some (r, w1)"
    by (auto simp: WhyCantJohnnyExec_def Let_def split: option.splits)
  have "r = int sizeof_int"
    using writeFully_loop_complete [of fd sizeof_int "int sizeof_int" "int_bytes (errno w)" w "(r, w1)"]
      wf op fl by (simp add: writeFully_def)
  with writeFully_Some [OF wf] have wl: "wlog w1 = wlog w @ map (Pair (chan w fd)) (int_bytes (errno w))"
    by auto
  obtain c w2 where cl: "sys_close fd w1 = (c, w2)" by (cases "sys_close fd w1")
  have out: "out = Exited (- 1) w2" using t wf cl by (simp add: WhyCantJohnnyExec_def Let_def)
  have "wlog w2 = wlog w1" "\<not> is_open w2 fd"
    using sys_close_frame0ish [of fd w1] sys_close_closes [of fd w1] cl by simp_all
  then show ?thesis using t out wl by simp
qed

lemma run_post_frame: "frame w w1 \<Longrightarrow> run_post p w1 out \<Longrightarrow> run_post p w out"
  by (simp add: run_post_def frame_def split: outcome.splits)

lemma tail_post:
  assumes "WhyCantJohnnyExec fd w = Some out" and "fd = fail1 p \<or> fd = FAIL_FILENO"
  shows "run_post p w out"
  using tail_Some [OF assms(1)] assms(2)
  by (auto simp: run_post_def intro: errno_reportI)

lemma stage_then_post:
  assumes cf: "cond_frame c"
    and fd: "fd = fail1 p \<or> fd = FAIL_FILENO"
    and rest: "\<And>w1 out. rest w1 = Some out \<Longrightarrow> run_post p w1 out"
    and run: "stage_then c fd rest w = Some out"
  shows "run_post p w out"
proof -
  from run obtain bad w1 where c: "c w = Some (bad, w1)"
    by (auto simp: stage_then_def split: option.splits)
  then have f: "frame w w1" using cf by (simp add: cond_frame_def)
  have "run_post p w1 out"
  proof (cases bad)
    case True
    then have "WhyCantJohnnyExec fd w1 = Some out" using run c by (simp add: stage_then_def)
    then show ?thesis using fd by (rule tail_post)
  next
    case False
    then have "rest w1 = Some out" using run c by (simp add: stage_then_def)
    then show ?thesis by (rule rest)
  qed
  with f show ?thesis by (rule run_post_frame)
qed

lemma exec_post:
  assumes "childProcess_exec p (childProcess_sigmask p w) = Some out"
  shows "run_post p w out"
proof -
  let ?w2 = "childProcess_sigmask p w"
  let ?r = "JDK_execvpe (c_mode p) (the (c_argv p ! 0)) (c_argv p) (c_envv p) ?w2"
  have s: "wlog ?w2 = wlog w" "sigmask ?w2 = (if c_mode p \<noteq> MODE_VFORK then {} else sigmask w)"
    by (simp_all add: childProcess_sigmask_def sys_sigprocmask_setmask_def)
  have ef: "exec_frame ?w2 ?r" by (rule ef_JDK_execvpe)
  show ?thesis
  proof (cases ?r)
    case (Inl o1)
    then have "out = o1" using assms by (simp add: childProcess_exec_def)
    then show ?thesis using ef Inl s
      by (auto simp: exec_frame_def run_post_def xframe_def frame_def split: outcome.splits)
  next
    case (Inr b)
    obtain av w' where b: "b = (av, w')" by (cases b)
    then have t: "WhyCantJohnnyExec FAIL_FILENO w' = Some out"
      using assms Inr by (simp add: childProcess_exec_def)
    have x: "xframe ?w2 w'" using ef Inr b by (simp add: exec_frame_def)
    from tail_Some [OF t] x s show ?thesis
      by (auto simp: run_post_def xframe_def frame_def intro: errno_reportI)
  qed
qed

lemma childProcess_unfold:
  "childProcess p w = stage_then (childProcess_alive p) (fail1 p) (childProcess_rest p) w"
  by (simp add: childProcess_def childProcess_rest_def Let_def)

lemma rest_post:
  assumes "childProcess_rest p w = Some out"
  shows "run_post p w out"
  using assms unfolding childProcess_rest_def
  apply (rule stage_then_post [OF cf_close_parent_sides, rotated 2])
   apply simp
  apply (rule stage_then_post [OF cf_stdin_stdout, rotated 2], assumption)
   apply simp
  apply (rule stage_then_post [OF cf_stderr, rotated 2], assumption)
   apply simp
  apply (rule stage_then_post [OF cf_moveDescriptor, rotated 2], assumption)
   apply simp
  apply (rule stage_then_post [OF cf_close_everything, rotated 2], assumption)
   apply simp
  apply (rule stage_then_post [OF cf_chdir, rotated 2], assumption)
   apply simp
  apply (erule exec_post)
  done

lemma stage_then_total:
  assumes ct: "cond_total c" and cf: "cond_frame c"
    and rest: "\<And>w1. quiet w1 \<Longrightarrow> rest w1 \<noteq> None"
    and q: "quiet w"
  shows "stage_then c fd rest w \<noteq> None"
proof -
  from ct q obtain bad w1 where c: "c w = Some (bad, w1)" by (auto simp: cond_total_def)
  then have "frame w w1" using cf by (simp add: cond_frame_def)
  then have q1: "quiet w1" using q by (simp add: frame_quiet)
  show ?thesis using c tail_total [OF q1, of fd] rest [OF q1]
    by (simp add: stage_then_def)
qed

lemma exec_total:
  assumes "quiet w"
  shows "childProcess_exec p (childProcess_sigmask p w) \<noteq> None"
proof -
  let ?w2 = "childProcess_sigmask p w"
  let ?r = "JDK_execvpe (c_mode p) (the (c_argv p ! 0)) (c_argv p) (c_envv p) ?w2"
  have q2: "quiet ?w2" using assms
    by (simp add: childProcess_sigmask_def sys_sigprocmask_setmask_def quiet_def)
  have ef: "exec_frame ?w2 ?r" by (rule ef_JDK_execvpe)
  show ?thesis
  proof (cases ?r)
    case (Inl o1)
    then show ?thesis by (simp add: childProcess_exec_def)
  next
    case (Inr b)
    obtain av w' where b: "b = (av, w')" by (cases b)
    have "xframe ?w2 w'" using ef Inr b by (simp add: exec_frame_def)
    then have "frame ?w2 w'" by (simp add: xframe_def)
    then have "quiet w'" using q2 by (simp add: frame_quiet)
    from tail_total [OF this, of FAIL_FILENO] show ?thesis
      using Inr b by (simp add: childProcess_exec_def)
  qed
qed

lemma rest_total: "quiet w \<Longrightarrow> childProcess_rest p w \<noteq> None"
  unfolding childProcess_rest_def
  by (intro stage_then_total exec_total
      ct_close_parent_sides cf_close_parent_sides ct_stdin_stdout cf_stdin_stdout
      ct_stderr cf_stderr ct_moveDescriptor cf_moveDescriptor
      ct_close_everything cf_close_everything ct_chdir cf_chdir)

lemma alive_Some:
  assumes "childProcess_alive p w = Some (bad, w1)"
  shows "frame0 w w1 \<and>
         (\<exists>pre. prefix pre (alive_ping p) \<and>
                wlog w1 = wlog w @ map (Pair (chan w (fail1 p))) pre \<and>
                (\<not> bad \<longrightarrow> pre = alive_ping p))"
proof (cases "sendAlivePing p \<noteq> 0")
  case False
  then show ?thesis using assms by (auto simp: childProcess_alive_def alive_ping_def)
next
  case True
  then obtain r where wf: "writeFully (fail1 p) (int_bytes CHILD_IS_ALIVE) sizeof_int w = Some (r, w1)"
    and bad: "bad = (r \<noteq> int sizeof_int)"
    using assms by (auto simp: childProcess_alive_def split: option.splits)
  from writeFully_Some [OF wf] bad True show ?thesis
    by (auto simp: alive_ping_def)
qed

lemma alive_total: "quiet w \<Longrightarrow> childProcess_alive p w \<noteq> None"
  using writeFully_total [of w "fail1 p" "int_bytes CHILD_IS_ALIVE" sizeof_int]
  by (auto simp: childProcess_alive_def)

lemma childProcess_total: "quiet w \<Longrightarrow> childProcess p w \<noteq> None"
proof -
  assume q: "quiet w"
  from alive_total [OF q, of p] obtain bad w1 where a: "childProcess_alive p w = Some (bad, w1)"
    by auto
  from alive_Some [OF a] have "frame0 w w1" by simp
  then have q1: "quiet w1" using q by (simp add: frame0_quiet)
  show ?thesis
    using a tail_total [OF q1, of "fail1 p"] rest_total [OF q1, of p]
    by (simp add: childProcess_unfold stage_then_def)
qed

lemma childProcess_run_post:
  assumes "childProcess p w = Some out"
  shows "\<exists>bad w1. childProcess_alive p w = Some (bad, w1) \<and> run_post p w1 out \<and>
           (bad \<longrightarrow> exit_status out \<noteq> None)"
proof -
  from assms obtain bad w1 where a: "childProcess_alive p w = Some (bad, w1)"
    by (auto simp: childProcess_unfold stage_then_def split: option.splits)
  show ?thesis
  proof (cases bad)
    case True
    then have t: "WhyCantJohnnyExec (fail1 p) w1 = Some out"
      using assms a by (simp add: childProcess_unfold stage_then_def)
    then have "run_post p w1 out" by (rule tail_post) simp
    moreover have "exit_status out \<noteq> None" using tail_Some [OF t] by auto
    ultimately show ?thesis using a by simp
  next
    case False
    then have "childProcess_rest p w1 = Some out"
      using assms a by (simp add: childProcess_unfold stage_then_def)
    then have "run_post p w1 out" by (rule rest_post)
    then show ?thesis using a False by blast
  qed
qed

lemma childProcess_run_result:
  assumes "childProcess p w = Some out"
  shows "run_result p w out"
proof -
  from childProcess_run_post [OF assms] obtain bad w1 where
    a: "childProcess_alive p w = Some (bad, w1)" and rp: "run_post p w1 out"
    and b: "bad \<longrightarrow> exit_status out \<noteq> None" by blast
  from alive_Some [OF a] obtain pre where
    pre: "prefix pre (alive_ping p)"
    and wl: "wlog w1 = wlog w @ map (Pair (chan w (fail1 p))) pre"
    and full: "\<not> bad \<longrightarrow> pre = alive_ping p" by blast
  show ?thesis
  proof (cases out)
    case (Execd c w')
    then have "\<not> bad" using b by auto
    then show ?thesis using Execd rp wl full by (simp add: run_result_def run_post_def)
  next
    case (Exited s w')
    then show ?thesis using rp wl pre by (auto simp: run_result_def run_post_def)
  qed
qed

lemma childProcess_sigmask_result:
  assumes "childProcess p w = Some out"
  shows "(c_mode p = MODE_VFORK \<longrightarrow> sigmask (final_world out) = sigmask w) \<and>
         (c_mode p \<noteq> MODE_VFORK \<and> exit_status out = None \<longrightarrow> sigmask (final_world out) = {})"
proof -
  from childProcess_run_post [OF assms] obtain bad w1 where
    a: "childProcess_alive p w = Some (bad, w1)" and rp: "run_post p w1 out" by blast
  from alive_Some [OF a] have "sigmask w1 = sigmask w" by (simp add: frame0_def)
  then show ?thesis using rp by (cases out) (auto simp: run_post_def)
qed

text \<open>
  C8. Moving a descriptor onto itself does nothing and succeeds: no \<open>dup2\<close>, no \<open>close\<close>,
  the state is the same. For a source different from the target, \<open>moveDescriptor\<close> is the
  restartable \<open>dup2\<close> followed, when that succeeded, by \<open>close\<close> of the source; when neither
  call is answered with a fault and the source is open, the result is 0, the target refers to
  the source's file description, the source is closed and no other descriptor changes.
\<close>

theorem moveDescriptor_self_noop:
  "moveDescriptor d d w = Some (0, w) \<and>
   (fd_from \<noteq> fd_to \<longrightarrow>
      moveDescriptor fd_from fd_to w =
        (case restartableDup2 fd_from fd_to w of
           None \<Rightarrow> None
         | Some (r, w1) \<Rightarrow>
             if r = - 1 then Some (- 1, w1)
             else Some (if fst (sys_close fd_from w1) = - 1 then - 1 else 0, snd (sys_close fd_from w1)))) \<and>
   (fd_from \<noteq> fd_to \<and> 0 \<le> fd_to \<and> fd_lookup w fd_from = Some e \<and>
    fault w (clock w) = 0 \<and> fault w (Suc (clock w)) = 0 \<longrightarrow>
      (\<exists>w'. moveDescriptor fd_from fd_to w = Some (0, w') \<and>
            fd_lookup w' fd_to = Some (e\<lparr>fd_flags := 0\<rparr>) \<and> \<not> is_open w' fd_from \<and>
            (\<forall>fd. fd \<noteq> fd_from \<and> fd \<noteq> fd_to \<longrightarrow> fd_lookup w' fd = fd_lookup w fd)))"
proof (intro conjI impI)
  show "moveDescriptor d d w = Some (0, w)" by (simp add: moveDescriptor_def)
next
  assume "fd_from \<noteq> fd_to"
  then show "moveDescriptor fd_from fd_to w =
        (case restartableDup2 fd_from fd_to w of
           None \<Rightarrow> None
         | Some (r, w1) \<Rightarrow>
             if r = - 1 then Some (- 1, w1)
             else Some (if fst (sys_close fd_from w1) = - 1 then - 1 else 0, snd (sys_close fd_from w1)))"
    by (simp add: moveDescriptor_def split: option.splits prod.splits)
next
  assume "fd_from \<noteq> fd_to \<and> 0 \<le> fd_to \<and> fd_lookup w fd_from = Some e \<and>
    fault w (clock w) = 0 \<and> fault w (Suc (clock w)) = 0"
  then show "\<exists>w'. moveDescriptor fd_from fd_to w = Some (0, w') \<and>
            fd_lookup w' fd_to = Some (e\<lparr>fd_flags := 0\<rparr>) \<and> \<not> is_open w' fd_from \<and>
            (\<forall>fd. fd \<noteq> fd_from \<and> fd \<noteq> fd_to \<longrightarrow> fd_lookup w' fd = fd_lookup w fd)"
    using moveDescriptor_moves [of fd_from fd_to w e] by simp
qed

theorem moveDescriptor_self_noop_witness:
  "moveDescriptor 5 5 ex_world = Some (0, ex_world) \<and>
   (\<exists>w'. moveDescriptor 5 0 ex_world = Some (0, w') \<and>
         fd_lookup w' 0 = Some \<lparr>fd_file = 50, fd_flags = 0\<rparr> \<and> \<not> is_open w' 5)"
proof -
  have h: "fd_lookup ex_world 5 = Some \<lparr>fd_file = 50, fd_flags = 0\<rparr>"
    "fault ex_world (clock ex_world) = 0" "fault ex_world (Suc (clock ex_world)) = 0"
    "(5 :: int) \<noteq> 0" "(0 :: int) \<le> 0"
    by (simp_all add: ex_world_def ex_fdtab_def fd_lookup_def)
  note t = moveDescriptor_self_noop [of 5 ex_world 5 0 "\<lparr>fd_file = 50, fd_flags = 0\<rparr>"]
  from t have c1: "moveDescriptor 5 5 ex_world = Some (0, ex_world)" by blast
  from t h have c3: "\<exists>w'. moveDescriptor 5 0 ex_world = Some (0, w') \<and>
      fd_lookup w' 0 = Some (\<lparr>fd_file = 50, fd_flags = 0\<rparr>\<lparr>fd_flags := 0\<rparr>) \<and> \<not> is_open w' 5"
    by blast
  from c1 c3 show ?thesis by simp
qed



lemma sys_close_not_opening: "is_open (snd (sys_close a w)) fd \<Longrightarrow> is_open w fd"
proof (cases "fd_lookup w a")
  case None
  then show "is_open (snd (sys_close a w)) fd \<Longrightarrow> is_open w fd"
    by (simp add: sys_close_def Let_def is_open_def)
next
  case (Some e)
  then have "0 \<le> a" by (cases "a < 0") (simp_all add: fd_lookup_neg)
  then show "is_open (snd (sys_close a w)) fd \<Longrightarrow> is_open w fd" using Some
    by (auto simp: sys_close_def Let_def is_open_def fd_lookup_def delete_conv' split: if_splits)
qed

lemma closeSafely_stale: "stale w fd \<Longrightarrow> stale (snd (closeSafely a w)) fd"
  using sys_close_not_opening [of a w fd] by (auto simp: stale_def closeSafely_def)

lemma closeSafely_of_stale:
  "stale w fd \<Longrightarrow> fst (closeSafely fd w) = - 1 \<and> errno (snd (closeSafely fd w)) = EBADF"
  by (simp add: stale_def closeSafely_def sys_close_def Let_def is_open_def)

lemma fails_stale: "stale w fd \<Longrightarrow> \<exists>w'. fails (closeSafely fd) w = Some (True, w')"
  using closeSafely_of_stale [of w fd] by (auto simp: fails_def split: prod.splits)

lemma orelse_stale:
  assumes rest: "\<And>w1. (\<exists>x\<in>S. stale w1 x) \<Longrightarrow> \<exists>w'. rest w1 = Some (True, w')"
    and bad: "stale w a \<or> (\<exists>x\<in>S. stale w x)"
  shows "\<exists>w'. orelse (fails (closeSafely a)) rest w = Some (True, w')"
proof -
  obtain r w1 where c: "closeSafely a w = (r, w1)" by (cases "closeSafely a w")
  show ?thesis
  proof (cases "r = - 1")
    case True
    then show ?thesis using c by (simp add: orelse_def fails_def)
  next
    case False
    then have "\<not> stale w a" using closeSafely_of_stale [of w a] c by auto
    with bad obtain x where "x \<in> S" "stale w x" by auto
    then have "\<exists>x\<in>S. stale w1 x" using closeSafely_stale [of w x a] c by auto
    from rest [OF this] show ?thesis using c False by (simp add: orelse_def fails_def)
  qed
qed

lemma close_parent_sides_stale:
  assumes "\<exists>fd\<in>set (leftover p). stale w fd"
  shows "\<exists>w'. childProcess_close_parent_sides p w = Some (True, w')"
  unfolding childProcess_close_parent_sides_def
  apply (rule orelse_stale [where S = "{out0 p, err0 p, childenv0 p, childenv1 p, fail0 p}"])
   apply (rule orelse_stale [where S = "{err0 p, childenv0 p, childenv1 p, fail0 p}"])
    apply (rule orelse_stale [where S = "{childenv0 p, childenv1 p, fail0 p}"])
     apply (rule orelse_stale [where S = "{childenv1 p, fail0 p}"])
      apply (rule orelse_stale [where S = "{fail0 p}"])
       apply (simp add: fails_stale)
      apply blast
     apply blast
    apply blast
   apply blast
  using assms apply (auto simp: leftover_def)
  done

lemma close_parent_sides_absent:
  assumes "\<forall>fd\<in>set (leftover p). fd = - 1"
  shows "childProcess_close_parent_sides p w = Some (False, w)"
  using assms
  by (simp add: childProcess_close_parent_sides_def leftover_def orelse_def fails_def closeSafely_def)

lemma argvec_split:
  "\<exists>pre suf. av = map Some pre @ suf \<and> (suf = [] \<or> hd suf = None) \<and> argc av = length pre"
proof (induction av)
  case Nil
  show ?case by (simp add: argc_def)
next
  case (Cons a av)
  show ?case
  proof (cases a)
    case None
    then have "a # av = map Some [] @ (a # av) \<and> hd (a # av) = None \<and> argc (a # av) = length ([] :: string list)"
      by (simp add: argc_def)
    then show ?thesis by blast
  next
    case (Some s)
    from Cons.IH obtain pre suf where
      "av = map Some pre @ suf" "suf = [] \<or> hd suf = None" "argc av = length pre" by blast
    then have "a # av = map Some (s # pre) @ suf \<and> (suf = [] \<or> hd suf = None) \<and>
        argc (a # av) = length (s # pre)"
      using Some by (simp add: argc_def)
    then show ?thesis by blast
  qed
qed

lemma wf_argv_decomp:
  assumes "wf_argv av"
  obtains a0 as x rest where "av = Some a0 # map Some as @ None # x # rest"
proof -
  from argvec_split [of av] obtain pre suf where
    av: "av = map Some pre @ suf" and suf: "suf = [] \<or> hd suf = None"
    and n: "argc av = length pre" by blast
  from assms n have "pre \<noteq> []" by (auto simp: wf_argv_def)
  then obtain a0 as where pre: "pre = a0 # as" by (cases pre) auto
  have "length av = length pre + length suf" by (simp add: av)
  then have "2 \<le> length suf" using assms n by (simp add: wf_argv_def)
  then obtain y x rest where s: "suf = y # x # rest"
    by (cases suf; cases "tl suf") auto
  with suf have "y = None" by simp
  then have "av = Some a0 # map Some as @ None # x # rest" using av pre s by simp
  then show ?thesis by (rule that)
qed

lemma takeWhile_decomp [simp]:
  "takeWhile (\<lambda>a. a \<noteq> None) (map Some as @ None # r) = map Some as"
  by (induction as) auto

lemma takeWhile_decomp' [simp]:
  "takeWhile (\<lambda>a. \<exists>y. a = Some y) (map Some as @ None # r) = map Some as"
  by (induction as) auto

lemma argc_decomp [simp]: "argc (Some a0 # map Some as @ None # r) = Suc (length as)"
  by (simp add: argc_def)

lemma cvec_decomp [simp]: "cvec (Some a0 # map Some as @ None # r) = a0 # as"
  by (simp add: cvec_def comp_def)

lemma wf_argv_decomp_iff [simp]: "wf_argv (Some a0 # map Some as @ None # x # rest)"
  by (simp add: wf_argv_def)

lemma shell_script_decomp:
  "execve_as_traditional_shell_script file (Some a0 # map Some as @ None # x # rest) envp w =
     (if exec_err w (sh_call file (a0 # as) envp) = 0
      then Inl (Execd (sh_call file (a0 # as) envp)
                  (w\<lparr>execs := execs w @ [sh_call file (a0 # as) envp]\<rparr>))
      else Inr (Some a0 # map Some as @ None # None # rest,
                w\<lparr>execs := execs w @ [sh_call file (a0 # as) envp],
                  errno := exec_err w (sh_call file (a0 # as) envp)\<rparr>))"
proof -
  let ?av = "Some a0 # map Some as @ None # x # rest"
  have n: "length (takeWhile (\<lambda>a. a \<noteq> None) ?av) = Suc (length as)" by simp
  have av3: "((memmove ?av 2 1 (Suc (length as)))[0 := Some ''/bin/sh''])[1 := Some file]
      = Some ''/bin/sh'' # Some file # map Some as @ None # rest"
    by (cases as) (simp_all add: memmove_def numeral_2_eq_2)
  let ?av3 = "Some ''/bin/sh'' # Some file # map Some as @ None # rest"
  have cv: "cvec ?av3 = ''/bin/sh'' # file # as"
    using cvec_decomp [of "''/bin/sh''" "file # as" rest] by simp
  have m2: "(memmove ?av3 (Suc 0) 2 (Suc (length as)))[0 := Some a0]
      = Some a0 # map Some as @ None # None # rest"
    by (simp add: memmove_def numeral_2_eq_2)
  show ?thesis
    unfolding execve_as_traditional_shell_script_def Let_def n av3
    by (simp add: sys_execve_cases cv m2 sh_call_def)
qed

lemma spare_cleared:
  assumes "wf_argv av"
  shows "wf_argv (av[Suc (argc av) := None]) \<and> cvec (av[Suc (argc av) := None]) = cvec av \<and>
         take (Suc (argc av)) (av[Suc (argc av) := None]) = take (Suc (argc av)) av \<and>
         argc (av[Suc (argc av) := None]) = argc av"
proof -
  from assms obtain a0 as x rest where av: "av = Some a0 # map Some as @ None # x # rest"
    by (rule wf_argv_decomp)
  show ?thesis unfolding av by (simp add: list_update_append)
qed

lemma fallback_effect:
  assumes "wf_argv av"
  shows "execve_with_shell_fallback mode path av envp w =
     (if attempt_errno mode path (cvec av) envp w = 0
      then Inl (Execd (last (attempt_calls mode path (cvec av) envp w))
                  (attempt_world mode path (cvec av) envp w))
      else Inr (if mode = MODE_VFORK \<and> exec_err w (Execve path (cvec av) envp) = ENOEXEC
                then av[Suc (argc av) := None] else av,
                attempt_world mode path (cvec av) envp w
                  \<lparr>errno := attempt_errno mode path (cvec av) envp w\<rparr>))"
proof (cases "mode = MODE_VFORK")
  case False
  then show ?thesis
    by (simp add: execve_with_shell_fallback_def sys_execvp_cases attempt_errno_def
        attempt_calls_def attempt_world_def)
next
  case True
  show ?thesis
  proof (cases "exec_err w (Execve path (cvec av) envp) = ENOEXEC")
    case False
    then show ?thesis using True
      by (simp add: execve_with_shell_fallback_def sys_execve_cases attempt_errno_def
          attempt_calls_def attempt_world_def)
  next
    case T: True
    from assms obtain a0 as x rest where av: "av = Some a0 # map Some as @ None # x # rest"
      by (rule wf_argv_decomp)
    have u: "av[Suc (argc av) := None] = Some a0 # map Some as @ None # None # rest"
      unfolding av by (simp add: list_update_append)
    have cv: "cvec av = a0 # as" unfolding av by simp
    let ?w1 = "w\<lparr>execs := execs w @ [Execve path (a0 # as) envp], errno := ENOEXEC\<rparr>"
    have e1: "exec_err ?w1 = exec_err w" by simp
    have "execve_with_shell_fallback mode path av envp w =
        execve_as_traditional_shell_script path av envp ?w1"
      using True T by (simp add: execve_with_shell_fallback_def sys_execve_cases cv)
    also have "\<dots> =
       (if exec_err w (sh_call path (a0 # as) envp) = 0
        then Inl (Execd (sh_call path (a0 # as) envp)
                  (?w1\<lparr>execs := execs ?w1 @ [sh_call path (a0 # as) envp]\<rparr>))
        else Inr (Some a0 # map Some as @ None # None # rest,
                ?w1\<lparr>execs := execs ?w1 @ [sh_call path (a0 # as) envp],
                  errno := exec_err w (sh_call path (a0 # as) envp)\<rparr>))"
      unfolding av shell_script_decomp e1 ..
    finally show ?thesis
      using True T unfolding u cv
      by (simp add: attempt_errno_def attempt_calls_def attempt_world_def)
  qed
qed







declare JDK_execvpe_loop.simps(2) [simp del]













text \<open>
  C4. In \<open>MODE_VFORK\<close>, when \<open>execve\<close> of the path fails with \<open>ENOEXEC\<close>, a second
  \<open>execve\<close> is made, of \<^verbatim>\<open>/bin/sh\<close> with the arguments \<^verbatim>\<open>/bin/sh\<close>, the path, and the
  original arguments after the first. If that call fails too, the function returns with
  the \<open>errno\<close> of the shell's \<open>execve\<close>, and the argument vector holds its original
  strings again, up to and including the terminating \<open>NULL\<close> (the spare slot after it now
  holds \<open>NULL\<close>). If the shell's call succeeds, the shell is the new program image.
\<close>

theorem execve_with_shell_fallback_ENOEXEC:
  "(wf_argv av \<and> exec_err w (Execve file (cvec av) envp) = ENOEXEC \<and>
    exec_err w (Execve ''/bin/sh'' (''/bin/sh'' # file # tl (cvec av)) envp) \<noteq> 0 \<longrightarrow>
      execve_with_shell_fallback MODE_VFORK file av envp w =
        Inr (av[Suc (argc av) := None],
             w\<lparr>errno := exec_err w (Execve ''/bin/sh'' (''/bin/sh'' # file # tl (cvec av)) envp),
               execs := execs w @ [Execve file (cvec av) envp,
                          Execve ''/bin/sh'' (''/bin/sh'' # file # tl (cvec av)) envp]\<rparr>) \<and>
      take (Suc (argc av)) (av[Suc (argc av) := None]) = take (Suc (argc av)) av \<and>
      cvec (av[Suc (argc av) := None]) = cvec av) \<and>
   (wf_argv av \<and> exec_err w (Execve file (cvec av) envp) = ENOEXEC \<and>
    exec_err w (Execve ''/bin/sh'' (''/bin/sh'' # file # tl (cvec av)) envp) = 0 \<longrightarrow>
      execve_with_shell_fallback MODE_VFORK file av envp w =
        Inl (Execd (Execve ''/bin/sh'' (''/bin/sh'' # file # tl (cvec av)) envp)
               (w\<lparr>errno := ENOEXEC,
                  execs := execs w @ [Execve file (cvec av) envp,
                             Execve ''/bin/sh'' (''/bin/sh'' # file # tl (cvec av)) envp]\<rparr>)))"
proof (intro conjI impI)
  assume a: "wf_argv av \<and> exec_err w (Execve file (cvec av) envp) = ENOEXEC \<and>
    exec_err w (Execve ''/bin/sh'' (''/bin/sh'' # file # tl (cvec av)) envp) \<noteq> 0"
  then have wf: "wf_argv av" by simp
  show "execve_with_shell_fallback MODE_VFORK file av envp w =
        Inr (av[Suc (argc av) := None],
             w\<lparr>errno := exec_err w (Execve ''/bin/sh'' (''/bin/sh'' # file # tl (cvec av)) envp),
               execs := execs w @ [Execve file (cvec av) envp,
                          Execve ''/bin/sh'' (''/bin/sh'' # file # tl (cvec av)) envp]\<rparr>)"
    using a
    by (simp add: fallback_effect [OF wf] attempt_errno_def attempt_calls_def attempt_world_def
        sh_call_def)
  show "take (Suc (argc av)) (av[Suc (argc av) := None]) = take (Suc (argc av)) av"
    "cvec (av[Suc (argc av) := None]) = cvec av"
    using spare_cleared [OF wf] by simp_all
next
  assume a: "wf_argv av \<and> exec_err w (Execve file (cvec av) envp) = ENOEXEC \<and>
    exec_err w (Execve ''/bin/sh'' (''/bin/sh'' # file # tl (cvec av)) envp) = 0"
  then have wf: "wf_argv av" by simp
  show "execve_with_shell_fallback MODE_VFORK file av envp w =
        Inl (Execd (Execve ''/bin/sh'' (''/bin/sh'' # file # tl (cvec av)) envp)
               (w\<lparr>errno := ENOEXEC,
                  execs := execs w @ [Execve file (cvec av) envp,
                             Execve ''/bin/sh'' (''/bin/sh'' # file # tl (cvec av)) envp]\<rparr>))"
    using a
    by (simp add: fallback_effect [OF wf] attempt_errno_def attempt_calls_def attempt_world_def
        sh_call_def)
qed

theorem execve_with_shell_fallback_ENOEXEC_witness:
  "execve_with_shell_fallback MODE_VFORK ''/a/script'' [Some ''script'', Some ''x'', None, Some ''junk'']
       (Some 2) ex_world_script =
     Inr ([Some ''script'', Some ''x'', None, None],
          ex_world_script\<lparr>errno := EACCES,
            execs := [Execve ''/a/script'' [''script'', ''x''] (Some 2),
                      Execve ''/bin/sh'' [''/bin/sh'', ''/a/script'', ''x''] (Some 2)]\<rparr>)"
proof -
  let ?av = "[Some ''script'', Some ''x'', None, Some ''junk'']"
  have h: "wf_argv ?av" "cvec ?av = [''script'', ''x'']" "argc ?av = 2"
    by (simp_all add: wf_argv_def argc_def cvec_def)
  have e: "exec_err ex_world_script (Execve ''/a/script'' [''script'', ''x''] (Some 2)) = ENOEXEC"
    "exec_err ex_world_script (Execve ''/bin/sh'' [''/bin/sh'', ''/a/script'', ''x''] (Some 2)) = EACCES"
    "execs ex_world_script = []"
    by (simp_all add: ex_world_script_def ex_world_def)
  show ?thesis
    using execve_with_shell_fallback_ENOEXEC [of ?av ex_world_script "''/a/script''" "Some 2"] h(1)
    by (simp add: h(2,3) e)
qed



lemma of_char_digit_char: "d < 10 \<Longrightarrow> (of_char (digit_char d) :: nat) = 48 + d"
  by (simp add: digit_char_def)

lemma of_char_digit_char_int: "d < 10 \<Longrightarrow> (of_char (digit_char d) :: int) = 48 + int d"
proof -
  assume "d < 10"
  then have "(of_char (digit_char d) :: nat) = 48 + d" by (rule of_char_digit_char)
  then have "int (of_char (digit_char d)) = int (48 + d)" by simp
  then show ?thesis by (simp only: of_nat_of_char of_nat_add of_nat_numeral)
qed

lemma isdigit_digit_char: "d < 10 \<Longrightarrow> isdigit (digit_char d)"
  by (simp add: isdigit_def of_char_digit_char)

lemma dec_digits: "\<forall>c\<in>set (dec n). isdigit c"
proof (induction n rule: dec.induct)
  case (1 n)
  show ?case
  proof (cases "n < 10")
    case True
    then show ?thesis by (subst dec.simps) (simp add: isdigit_digit_char)
  next
    case False
    then show ?thesis using "1.IH" by (subst dec.simps) (simp add: isdigit_digit_char)
  qed
qed

lemma dec_nonempty: "dec n \<noteq> []"
  by (subst dec.simps) simp

lemma dec_value: "foldl (\<lambda>a c. 10 * a + (of_char c - 48)) (0 :: int) (dec n) = int n"
proof (induction n rule: dec.induct)
  case (1 n)
  show ?case
  proof (cases "n < 10")
    case True
    then show ?thesis by (subst dec.simps) (simp add: of_char_digit_char_int)
  next
    case False
    have "n mod 10 < 10" by simp
    then have d: "(of_char (digit_char (n mod 10)) :: int) = 48 + int (n mod 10)"
      by (rule of_char_digit_char_int)
    have "int (n div 10) * 10 + int (n mod 10) = int n"
      by (metis mult.commute of_nat_add of_nat_mult of_nat_numeral div_mult_mod_eq)
    then show ?thesis using False "1.IH" d by (subst dec.simps) (simp add: mult.commute)
  qed
qed

lemma hd_dec_digit: "isdigit (hd (dec n))"
  using dec_digits [of n] dec_nonempty [of n] by (cases "dec n") auto

lemma isdigit_not_space: "isdigit c \<Longrightarrow> \<not> isspace c"
  by (auto simp: isdigit_def isspace_def)

lemma isdigit_not_sign: "isdigit c \<Longrightarrow> c \<noteq> CHR ''-'' \<and> c \<noteq> CHR ''+''"
  by (auto simp: isdigit_def)

lemma strtol10_dec: "strtol10 (dec n) = min LONG_MAX (int n)"
proof -
  obtain c cs where d: "dec n = c # cs" using dec_nonempty [of n] by (cases "dec n") auto
  have c: "isdigit c" using hd_dec_digit [of n] d by simp
  have dw: "dropWhile isspace (dec n) = dec n"
    using isdigit_not_space [OF c] d by simp
  have tw: "takeWhile isdigit (dec n) = dec n"
    using dec_digits [of n] by (simp add: takeWhile_eq_all_conv)
  have sg: "hd (dec n) \<noteq> CHR ''-''" "hd (dec n) \<noteq> CHR ''+''"
    using isdigit_not_sign [OF c] d by simp_all
  show ?thesis
    unfolding strtol10_def Let_def dw
    using sg dec_nonempty [of n] by (simp add: tw dec_value min.commute)
qed

lemma int_of_long_small: "0 \<le> x \<Longrightarrow> x < 2147483648 \<Longrightarrow> int_of_long x = x"
  unfolding int_of_long_def
  by (rule signed_take_bit_int_eq_self) simp_all

lemma dec_roundtrip:
  assumes "n < 2147483648"
  shows "isAsciiDigit (first_char (dec n)) \<and> int_of_long (strtol10 (dec n)) = int n"
proof -
  obtain c cs where d: "dec n = c # cs" using dec_nonempty [of n] by (cases "dec n") auto
  have "isdigit c" using hd_dec_digit [of n] d by simp
  then have "isAsciiDigit (first_char (dec n))"
    by (simp add: d first_char_def isAsciiDigit_def isdigit_def)
  moreover have "int_of_long (strtol10 (dec n)) = int n"
    using assms by (simp add: strtol10_dec int_of_long_small)
  ultimately show ?thesis by simp
qed

lemma marks_le_refl [simp]: "marks_le w w"
  by (simp add: marks_le_def)

lemma marks_le_trans: "marks_le w w1 \<Longrightarrow> marks_le w1 w2 \<Longrightarrow> marks_le w w2"
  unfolding marks_le_def by blast

lemma or_and_one_int: "((x :: int) OR 1) AND 1 = 1"
  by (simp add: and_one_eq mod_2_eq_odd even_or_iff)

lemma or_one_nonneg: "0 \<le> (x :: int) \<Longrightarrow> 0 \<le> x OR 1"
  by simp

lemma markCloseOnExec_closed:
  "fd_lookup w fd = None \<Longrightarrow> markCloseOnExec fd w = (- 1, w\<lparr>errno := EBADF\<rparr>)"
  by (simp add: markCloseOnExec_def sys_fcntl_getfd_def)

lemma markCloseOnExec_open:
  assumes "fd_lookup w fd = Some e"
  shows "markCloseOnExec fd w =
     (0, if int (fd_flags e) AND FD_CLOEXEC = 0
         then w\<lparr>fdtab := AList.update (nat fd) (e\<lparr>fd_flags := nat (int (fd_flags e) OR FD_CLOEXEC)\<rparr>) (fdtab w)\<rparr>
         else w)"
  using assms by (simp add: markCloseOnExec_def sys_fcntl_getfd_def sys_fcntl_setfd_def)

lemma fd_lookup_nonneg: "fd_lookup w fd = Some e \<Longrightarrow> 0 \<le> fd"
  by (cases "fd < 0") (simp_all add: fd_lookup_neg)

lemma markCloseOnExec_marks:
  "marks_le w (snd (markCloseOnExec fd w)) \<and>
   (\<forall>k. is_open (snd (markCloseOnExec fd w)) k = is_open w k) \<and>
   (\<forall>k. cloexec w k \<longrightarrow> cloexec (snd (markCloseOnExec fd w)) k) \<and>
   (is_open w fd \<longrightarrow> fst (markCloseOnExec fd w) = 0 \<and> cloexec (snd (markCloseOnExec fd w)) fd) \<and>
   (\<not> is_open w fd \<longrightarrow> fst (markCloseOnExec fd w) = - 1 \<and> errno (snd (markCloseOnExec fd w)) = EBADF)"
proof (cases "fd_lookup w fd")
  case None
  then show ?thesis
    by (simp add: markCloseOnExec_closed marks_le_def is_open_def cloexec_def)
next
  case (Some e)
  then have p: "0 \<le> fd" by (rule fd_lookup_nonneg)
  show ?thesis
  proof (cases "int (fd_flags e) AND FD_CLOEXEC = 0")
    case False
    then show ?thesis using Some
      by (simp add: markCloseOnExec_open marks_le_def is_open_def cloexec_def)
  next
    case True
    let ?e = "e\<lparr>fd_flags := nat (int (fd_flags e) OR FD_CLOEXEC)\<rparr>"
    let ?w = "w\<lparr>fdtab := AList.update (nat fd) ?e (fdtab w)\<rparr>"
    have m: "markCloseOnExec fd w = (0, ?w)" using Some True by (simp add: markCloseOnExec_open)
    have l: "fd_lookup ?w k = (if k = fd then Some ?e else fd_lookup w k)" for k
      using p by (rule fd_lookup_update)
    have c: "int (fd_flags ?e) AND FD_CLOEXEC \<noteq> 0"
      by (simp add: or_and_one_int)
    have o: "is_open ?w k = is_open w k" for k using Some by (simp add: is_open_def l)
    have ce: "cloexec ?w fd" using c by (simp add: cloexec_def l)
    have cp: "cloexec w k \<Longrightarrow> cloexec ?w k" for k
      using ce by (cases "k = fd") (simp_all add: cloexec_def l)
    show ?thesis
      unfolding m using o ce cp Some by (simp add: marks_le_def is_open_def)
  qed
qed

lemma closedir_marks: "marks_le w (sys_closedir dp w)"
proof -
  have l: "fd_lookup (sys_closedir dp w) k = (if k = int (dir_fd dp) then None else fd_lookup w k)" for k
    using fd_lookup_delete [of "int (dir_fd dp)" w k] by (simp add: sys_closedir_def)
  show ?thesis by (simp add: marks_le_def is_open_def cloexec_def l)
qed

lemma mark_loop_marks:
  "marks_le w (snd (markDescriptorsCloseOnExec_loop dp i es w)) \<and>
   ((\<forall>j. readdir_err w j = 0) \<and> fst (markDescriptorsCloseOnExec_loop dp i es w) \<noteq> - 1 \<longrightarrow>
      (\<forall>name\<in>set es. isAsciiDigit (first_char name) \<and> 3 \<le> entry_fd name \<and>
           is_open (snd (markDescriptorsCloseOnExec_loop dp i es w)) (entry_fd name) \<longrightarrow>
           cloexec (snd (markDescriptorsCloseOnExec_loop dp i es w)) (entry_fd name)))"
proof (induction es arbitrary: w i)
  case Nil
  have e: "marks_le w (sys_closedir dp (w\<lparr>errno := x\<rparr>))" for x
    using closedir_marks [of "w\<lparr>errno := x\<rparr>" dp]
    by (simp add: marks_le_def is_open_def cloexec_def)
  show ?case
    by (cases "readdir_err w i = 0") (simp_all add: mark_loop_stop mark_loop_end closedir_marks e)
next
  case (Cons e es)
  let ?fd = "entry_fd e"
  have ee: "marks_le w (sys_closedir dp (w\<lparr>errno := x\<rparr>))" for x
    using closedir_marks [of "w\<lparr>errno := x\<rparr>" dp]
    by (simp add: marks_le_def is_open_def cloexec_def)
  show ?case
  proof (cases "readdir_err w i = 0")
    case False
    then show ?thesis by (auto simp add: mark_loop_stop ee)
  next
    case ok: True
    show ?thesis
    proof (cases "isAsciiDigit (first_char e) \<and> 3 \<le> ?fd")
      case False
      then have u: "markDescriptorsCloseOnExec_loop dp i (e # es) w =
                    markDescriptorsCloseOnExec_loop dp (Suc i) es w"
        using ok by (auto simp: mark_loop_step entry_fd_def)
      show ?thesis unfolding u using Cons.IH [of w "Suc i"] False by auto
    next
      case True
      obtain r w1 where m: "markCloseOnExec ?fd w = (r, w1)" by (cases "markCloseOnExec ?fd w")
      note mm = markCloseOnExec_marks [of w ?fd, unfolded m, simplified]
      from mm have le1: "marks_le w w1" by simp
      have re: "readdir_err w1 = readdir_err w"
        using frame_markCloseOnExec [of w ?fd] by (simp add: m frame_def)
      show ?thesis
      proof (cases "r = - 1")
        case T: True
        then have u: "markDescriptorsCloseOnExec_loop dp i (e # es) w = (- 1, sys_closedir dp w1)"
          using True m ok by (simp add: mark_loop_step entry_fd_def)
        show ?thesis unfolding u using marks_le_trans [OF le1 closedir_marks] by simp
      next
        case F: False
        then have u: "markDescriptorsCloseOnExec_loop dp i (e # es) w =
                      markDescriptorsCloseOnExec_loop dp (Suc i) es w1"
          using True m ok by (simp add: mark_loop_step entry_fd_def)
        let ?w' = "snd (markDescriptorsCloseOnExec_loop dp (Suc i) es w1)"
        from Cons.IH [of w1 "Suc i"] have le2: "marks_le w1 ?w'"
          and rest: "(\<forall>j. readdir_err w j = 0) \<and>
            fst (markDescriptorsCloseOnExec_loop dp (Suc i) es w1) \<noteq> - 1 \<longrightarrow>
            (\<forall>name\<in>set es. isAsciiDigit (first_char name) \<and> 3 \<le> entry_fd name \<and>
               is_open ?w' (entry_fd name) \<longrightarrow> cloexec ?w' (entry_fd name))"
          by (simp_all add: re)
        have op1: "is_open w ?fd" using mm F by auto
        then have c1: "cloexec w1 ?fd" using mm by simp
        have this_one: "is_open ?w' ?fd \<longrightarrow> cloexec ?w' ?fd"
          using le2 c1 by (auto simp: marks_le_def)
        show ?thesis unfolding u
          using marks_le_trans [OF le1 le2] rest this_one by auto
      qed
    qed
  qed
qed

lemma opendir_marks:
  assumes "sys_opendir_fd w = (Some dp, w1)"
  shows "marks_le w1 w' \<Longrightarrow> is_open w' k \<Longrightarrow> 0 \<le> k \<Longrightarrow> dec (nat k) \<in> set (dir_ents dp)"
proof -
  assume le: "marks_le w1 w'" and o: "is_open w' k" and k: "0 \<le> k"
  from le o have "is_open w1 k" by (simp add: marks_le_def)
  then have "map_of (fdtab w1) (nat k) \<noteq> None" using k by (simp add: is_open_def fd_lookup_def)
  then have "nat k \<in> fst ` set (fdtab w1)" by (simp add: map_of_eq_None_iff)
  moreover have "dir_ents dp = ''.'' # ''..'' # map (dec \<circ> fst) (fdtab w1)"
    using assms by (auto simp: sys_opendir_fd_def Let_def split: if_splits)
  ultimately have "dec (nat k) \<in> set (map (dec \<circ> fst) (fdtab w1)) \<and>
      dir_ents dp = ''.'' # ''..'' # map (dec \<circ> fst) (fdtab w1)" by force
  then show ?thesis by simp
qed

lemma markDescriptorsCloseOnExec_marks:
  assumes "markDescriptorsCloseOnExec w = (r, w')" and "r \<noteq> - 1"
    and "3 \<le> k" and "k < 2147483648" and "is_open w' k"
    and rd: "\<forall>j. readdir_err w j = 0"
  shows "cloexec w' k"
proof -
  obtain d w1 where o: "sys_opendir_fd w = (d, w1)" by (cases "sys_opendir_fd w")
  from assms(1,2) o obtain dp where d: "d = Some dp"
    by (cases d) (auto simp: markDescriptorsCloseOnExec_def)
  have l: "markDescriptorsCloseOnExec_loop dp 0 (dir_ents dp) w1 = (r, w')"
    using assms(1) o d by (simp add: markDescriptorsCloseOnExec_def)
  have rd1: "\<forall>j. readdir_err w1 j = 0"
    using frame_sys_opendir_fd [of w] o rd by (simp add: frame_def)
  note ml = mark_loop_marks [of w1 dp 0 "dir_ents dp", unfolded l, simplified]
  from ml have le: "marks_le w1 w'" by simp
  have k0: "0 \<le> k" using assms(3) by simp
  have mem: "dec (nat k) \<in> set (dir_ents dp)"
    using opendir_marks [OF o [unfolded d] le assms(5) k0] .
  have "nat k < 2147483648" using assms(4) by simp
  from dec_roundtrip [OF this] have rt: "isAsciiDigit (first_char (dec (nat k)))"
    "entry_fd (dec (nat k)) = k" using k0 by (simp_all add: entry_fd_def)
  from ml assms(2) mem rt assms(3,5) rd1 show ?thesis by auto
qed

lemma close_the_old_way_marks:
  "(\<forall>k. is_open (snd (close_the_old_way fd max_fd w)) k = is_open w k) \<and>
   (\<forall>k. cloexec w k \<longrightarrow> cloexec (snd (close_the_old_way fd max_fd w)) k) \<and>
   \<not> fst (close_the_old_way fd max_fd w) \<and>
   (\<forall>k. fd \<le> k \<and> k < max_fd \<and> is_open w k \<longrightarrow> cloexec (snd (close_the_old_way fd max_fd w)) k)"
proof (induction fd max_fd w rule: close_the_old_way.induct)
  case (1 fd max_fd w)
  show ?case
  proof (cases "fd < max_fd")
    case False
    then have u: "close_the_old_way fd max_fd w = (False, w)"
      by (subst close_the_old_way.simps) simp
    show ?thesis unfolding u using False by auto
  next
    case True
    obtain r w1 where m: "markCloseOnExec fd w = (r, w1)" by (cases "markCloseOnExec fd w")
    note mm = markCloseOnExec_marks [of w fd, unfolded m, simplified]
    have nb: "\<not> (r = - 1 \<and> errno w1 \<noteq> EBADF)" using mm by (cases "is_open w fd") auto
    have u: "close_the_old_way fd max_fd w = close_the_old_way (fd + 1) max_fd w1"
      using True m nb by (subst close_the_old_way.simps) auto
    note ih = "1.IH" [OF True m [symmetric] nb]
    have here: "is_open w fd \<longrightarrow> cloexec (snd (close_the_old_way (fd + 1) max_fd w1)) fd"
      using mm ih by auto
    have "\<forall>k. fd \<le> k \<and> k < max_fd \<and> is_open w k \<longrightarrow>
            cloexec (snd (close_the_old_way (fd + 1) max_fd w1)) k"
    proof (intro allI impI)
      fix k assume a: "fd \<le> k \<and> k < max_fd \<and> is_open w k"
      show "cloexec (snd (close_the_old_way (fd + 1) max_fd w1)) k"
      proof (cases "k = fd")
        case True
        then show ?thesis using here a by simp
      next
        case False
        then have "fd + 1 \<le> k" using a by simp
        moreover have "is_open w1 k" using mm a by simp
        ultimately show ?thesis using ih a by simp
      qed
    qed
    then show ?thesis unfolding u using ih mm by auto
  qed
qed

lemma stage_then_Execd:
  assumes "stage_then c fd rest w = Some (Execd x w')"
  shows "\<exists>w1. c w = Some (False, w1) \<and> rest w1 = Some (Execd x w')"
proof -
  from assms obtain bad w1 where c: "c w = Some (bad, w1)"
    by (auto simp: stage_then_def split: option.splits)
  have "\<not> bad"
  proof
    assume bad
    then have "WhyCantJohnnyExec fd w1 = Some (Execd x w')"
      using assms c by (simp add: stage_then_def)
    from tail_Some [OF this] show False by auto
  qed
  then show ?thesis using assms c by (simp add: stage_then_def)
qed

lemma same_fdtab: "fdtab w' = fdtab w \<Longrightarrow> is_open w' k = is_open w k \<and> cloexec w' k = cloexec w k"
  by (simp add: is_open_def cloexec_def fd_lookup_def)

lemma close_everything_result:
  assumes "childProcess_close_everything w = Some (bad, w')"
    and rd: "\<forall>j. readdir_err w j = 0"
  shows "\<not> bad \<and>
         (\<forall>fd. 3 \<le> fd \<and> fd < 2147483648 \<and> is_open w' fd \<and>
               (fst (markDescriptorsCloseOnExec w) \<noteq> - 1 \<or> fd < int_of_long (open_max w)) \<longrightarrow>
               cloexec w' fd)"
proof -
  obtain r w1 where m: "markDescriptorsCloseOnExec w = (r, w1)"
    by (cases "markDescriptorsCloseOnExec w")
  show ?thesis
  proof (cases "r = - 1")
    case False
    then have e: "bad = False" "w' = w1"
      using assms m by (simp_all add: childProcess_close_everything_def)
    show ?thesis unfolding e m using markDescriptorsCloseOnExec_marks [OF m False _ _ _ rd] by simp
  next
    case True
    have om: "open_max w1 = open_max w"
      using frame_markDescriptorsCloseOnExec [of w] m by (simp add: frame_def)
    have e: "(bad, w') = close_the_old_way 3 (int_of_long (open_max w)) w1"
      using assms m True by (simp add: childProcess_close_everything_def Let_def om)
    note cm = close_the_old_way_marks [of 3 "int_of_long (open_max w)" w1, folded e, simplified]
    show ?thesis unfolding m using True cm by auto
  qed
qed

lemma chdir_fdtab: "childProcess_chdir p w = Some (bad, w') \<Longrightarrow> fdtab w' = fdtab w"
  by (auto simp: childProcess_chdir_def sys_chdir_def split: option.splits if_splits)

lemma exec_Execd_fdtab:
  assumes "childProcess_exec p (childProcess_sigmask p w) = Some (Execd x w')"
  shows "fdtab w' = fdtab w"
proof -
  let ?w2 = "childProcess_sigmask p w"
  let ?r = "JDK_execvpe (c_mode p) (the (c_argv p ! 0)) (c_argv p) (c_envv p) ?w2"
  have s: "fdtab ?w2 = fdtab w"
    by (simp add: childProcess_sigmask_def sys_sigprocmask_setmask_def)
  have ef: "exec_frame ?w2 ?r" by (rule ef_JDK_execvpe)
  show ?thesis
  proof (cases ?r)
    case (Inl o1)
    then have "o1 = Execd x w'" using assms by (simp add: childProcess_exec_def)
    then show ?thesis using ef Inl s by (simp add: exec_frame_def xframe_def)
  next
    case (Inr b)
    obtain av w1 where b: "b = (av, w1)" by (cases b)
    then have "WhyCantJohnnyExec FAIL_FILENO w1 = Some (Execd x w')"
      using assms Inr by (simp add: childProcess_exec_def)
    from tail_Some [OF this] show ?thesis by auto
  qed
qed

lemma sys_read_cases:
  assumes "sys_read fd n w = (m, bs, w')"
  shows "frame_rd w w' \<and>
         ((m = - 1 \<and> bs = [] \<and> pending w' = pending w \<and>
           (fault w (clock w) \<noteq> 0 \<longrightarrow> errno w' = fault w (clock w)) \<and>
           (fault w (clock w) = 0 \<longrightarrow> errno w' = EBADF \<and> \<not> is_open w fd)) \<or>
          (0 \<le> m \<and> nat m \<le> n \<and> fault w (clock w) = 0 \<and> is_open w fd \<and>
           nat m \<le> length (pending w (chan w fd)) \<and>
           (m = 0 \<longleftrightarrow> n = 0 \<or> pending w (chan w fd) = []) \<and>
           bs = take (nat m) (pending w (chan w fd)) \<and>
           pending w' = (pending w)(chan w fd := drop (nat m) (pending w (chan w fd)))))"
  using assms
proof -
  have n1: "\<And>k. nat (1 + int k) = Suc k" by simp
  show ?thesis
    using assms
    by (auto simp: sys_read_def Let_def frame_rd_def chan_def is_open_def min_def n1
        split: if_splits option.splits)
qed

lemma frame_rd_is_open: "frame_rd w w' \<Longrightarrow> is_open w' fd = is_open w fd"
  by (simp add: frame_rd_def is_open_def fd_lookup_def)

lemma frame_rd_chan: "frame_rd w w' \<Longrightarrow> chan w' fd = chan w fd"
  by (simp add: frame_rd_def chan_def fd_lookup_def)

lemma readFully_loop_total:
  assumes "\<forall>k\<ge>N. fault w k \<noteq> EINTR"
  shows "readFully_loop fd nbyte remaining got w \<noteq> None"
  using assms
proof (induction "(N - clock w) + nat remaining" arbitrary: remaining got w rule: less_induct)
  case less
  obtain n bs w1 where sr: "sys_read fd (nat remaining) w = (n, bs, w1)"
    by (cases "sys_read fd (nat remaining) w") auto
  note c = sys_read_cases [OF sr]
  from c have f1: "frame_rd w w1" by simp
  then have ck: "clock w1 = Suc (clock w)" by (simp add: frame_rd_def)
  have q1: "\<forall>k\<ge>N. fault w1 k \<noteq> EINTR" using less.prems f1 by (simp add: frame_rd_def)
  show ?case
  proof (cases "n = 0")
    case True
    then show ?thesis using sr by (subst readFully_loop.simps) simp
  next
    case nz: False
    show ?thesis
    proof (cases "n > 0")
      case True
      show ?thesis
      proof (cases "remaining - n \<le> 0")
        case T: True
        then show ?thesis using sr True by (subst readFully_loop.simps) simp
      next
        case False
        have "(N - clock w1) + nat (remaining - n) < (N - clock w) + nat remaining"
          using ck False True by simp
        from less.hyps [OF this q1]
        show ?thesis using sr True False by (subst readFully_loop.simps) simp
      qed
    next
      case False
      show ?thesis
      proof (cases "errno w1 = EINTR")
        case True
        with c False nz have "fault w (clock w) = EINTR" by (auto split: if_splits)
        with less.prems have "clock w < N" by (meson not_le)
        then have "(N - clock w1) + nat remaining < (N - clock w) + nat remaining"
          using ck by simp
        from less.hyps [OF this q1]
        show ?thesis using sr False nz True by (subst readFully_loop.simps) simp
      next
        case F2: False
        then show ?thesis using sr False nz by (subst readFully_loop.simps) simp
      qed
    qed
  qed
qed

lemma readFully_loop_complete:
  assumes "readFully_loop fd nbyte remaining got w = Some y"
    and "\<forall>k\<ge>clock w. fault w k = 0 \<or> fault w k = EINTR"
    and "is_open w fd" and "0 \<le> remaining"
  shows "fst y = int nbyte - remaining + int (min (nat remaining) (length (pending w (chan w fd)))) \<and>
         fst (snd y) = got @ take (nat remaining) (pending w (chan w fd)) \<and>
         pending (snd (snd y)) (chan w fd) = drop (nat remaining) (pending w (chan w fd)) \<and>
         wlog (snd (snd y)) = wlog w"
  using assms
proof (induction rule: readFully_loop.raw_induct [rotated 1, consumes 1])
  case (1 loop fd nbyte remaining got w y)
  let ?p = "pending w (chan w fd)"
  obtain n bs w1 where sr: "sys_read fd (nat remaining) w = (n, bs, w1)"
    by (cases "sys_read fd (nat remaining) w") auto
  note c = sys_read_cases [OF sr]
  from c have f1: "frame_rd w w1" by simp
  then have ck: "clock w1 = Suc (clock w)" by (simp add: frame_rd_def)
  have q1: "\<forall>k\<ge>clock w1. fault w1 k = 0 \<or> fault w1 k = EINTR"
    using 1(3) f1 ck by (simp add: frame_rd_def)
  have o1: "is_open w1 fd" using 1(4) f1 by (simp add: frame_rd_is_open)
  have ch1: "chan w1 fd = chan w fd" using f1 by (rule frame_rd_chan)
  have wl1: "wlog w1 = wlog w" using f1 by (simp add: frame_rd_def)
  have fl: "fault w (clock w) = 0 \<or> fault w (clock w) = EINTR" using 1(3) by simp
  show ?case
  proof (cases "n = 0")
    case True
    then have y: "y = (int nbyte - remaining, got, w1)" using 1(2) sr by simp
    from c True have e: "remaining \<le> 0 \<or> ?p = []" and pw: "pending w1 = pending w"
      by (auto simp: fun_upd_idem)
    then show ?thesis using y 1(5) wl1 by (auto simp: pw)
  next
    case nz: False
    show ?thesis
    proof (cases "n > 0")
      case True
      with c have bs: "bs = take (nat n) ?p" and nle: "nat n \<le> nat remaining"
        and nlp: "nat n \<le> length ?p"
        and pw: "pending w1 = (pending w)(chan w fd := drop (nat n) ?p)" by auto
      show ?thesis
      proof (cases "remaining - n \<le> 0")
        case T: True
        then have nr: "n = remaining" using nle True by auto
        have y: "y = (int nbyte, got @ bs, w1)" using 1(2) sr True T by simp
        show ?thesis using y bs pw nr nlp True wl1 by (simp add: min_def)
      next
        case False
        have rec: "loop fd nbyte (remaining - n) (got @ bs) w1 = Some y"
          using 1(2) sr True False nz by simp
        have p1: "pending w1 (chan w fd) = drop (nat n) ?p" by (simp add: pw)
        from 1(1) [OF rec q1 o1] False
        have r: "fst y = int nbyte - (remaining - n) +
                   int (min (nat (remaining - n)) (length (drop (nat n) ?p)))"
          "fst (snd y) = (got @ bs) @ take (nat (remaining - n)) (drop (nat n) ?p)"
          "pending (snd (snd y)) (chan w fd) = drop (nat (remaining - n)) (drop (nat n) ?p)"
          "wlog (snd (snd y)) = wlog w1"
          by (simp_all add: p1 ch1)
        have nn: "nat remaining = nat n + nat (remaining - n)" using False True by simp
        have na: "int (nat n) = n" using True by simp
        have m: "min (nat remaining) (length ?p) = nat n + min (nat (remaining - n)) (length ?p - nat n)"
          using nlp unfolding nn by (simp add: min_def)
        have a: "fst y = int nbyte - remaining + int (min (nat remaining) (length ?p))"
          unfolding m using r(1) na by simp
        have b: "fst (snd y) = got @ take (nat remaining) ?p"
          using r(2) bs by (simp add: nn take_add)
        have d: "pending (snd (snd y)) (chan w fd) = drop (nat remaining) ?p"
          using r(3) by (simp add: nn add.commute)
        show ?thesis using a b d r(4) wl1 by simp
      qed
    next
      case False
      with c nz 1(4) fl have ei: "errno w1 = EINTR" and pw: "pending w1 = pending w" by auto
      then have rec: "loop fd nbyte remaining got w1 = Some y"
        using 1(2) sr False nz by simp
      from 1(1) [OF rec q1 o1 1(5)] show ?thesis by (simp add: pw ch1 wl1)
    qed
  qed
qed

lemma readFully_loop_forever:
  assumes "\<forall>k\<ge>clock w. fault w k = EINTR"
  shows "readFully_loop fd nbyte remaining got w = None"
proof (rule ccontr)
  assume "readFully_loop fd nbyte remaining got w \<noteq> None"
  then obtain y where "readFully_loop fd nbyte remaining got w = Some y" by auto
  then have "\<not> (\<forall>k\<ge>clock w. fault w k = EINTR)"
  proof (induction rule: readFully_loop.raw_induct [rotated 1, consumes 1])
    case (1 loop fd nbyte remaining got w y)
    show ?case
    proof
      assume a: "\<forall>k\<ge>clock w. fault w k = EINTR"
      obtain n bs w1 where sr: "sys_read fd (nat remaining) w = (n, bs, w1)"
        by (cases "sys_read fd (nat remaining) w") auto
      note c = sys_read_cases [OF sr]
      from a have "fault w (clock w) = EINTR" by simp
      with c have n: "n = - 1" and e: "errno w1 = EINTR" by auto
      from c have f1: "frame_rd w w1" by simp
      have rec: "loop fd nbyte remaining got w1 = Some y" using 1(2) sr n e by simp
      have "\<forall>k\<ge>clock w1. fault w1 k = EINTR" using a f1 by (simp add: frame_rd_def)
      with 1(1) [OF rec] show False by simp
    qed
  qed
  with assms show False by simp
qed

lemma writeFully_loop_error:
  assumes "\<forall>k. clock w \<le> k \<and> k < clock w + m \<longrightarrow> fault w k = EINTR"
    and "fault w (clock w + m) = e" and "e \<noteq> 0" and "e \<noteq> EINTR"
  shows "\<exists>w'. writeFully_loop fd nbyte remaining buf w = Some (- 1, w') \<and> errno w' = e \<and>
              wlog w' = wlog w"
  using assms
proof (induction m arbitrary: w)
  case 0
  obtain n w1 where sw: "sys_write fd (take (nat remaining) buf) w = (n, w1)"
    by (cases "sys_write fd (take (nat remaining) buf) w")
  from 0 have f: "fault w (clock w) = e" by simp
  from sys_write_cases [OF sw] f 0(3) have c: "n = - 1" "errno w1 = e" "wlog w1 = wlog w"
    by auto
  show ?case using sw c 0(4) by (subst writeFully_loop.simps) simp
next
  case (Suc m)
  obtain n w1 where sw: "sys_write fd (take (nat remaining) buf) w = (n, w1)"
    by (cases "sys_write fd (take (nat remaining) buf) w")
  from Suc(2) have f: "fault w (clock w) = EINTR" by simp
  from sys_write_cases [OF sw] f
  have c: "n = - 1" "errno w1 = EINTR" "wlog w1 = wlog w" "clock w1 = Suc (clock w)"
    "fault w1 = fault w"
    by (auto simp: frame0_def)
  have a: "\<forall>k. clock w1 \<le> k \<and> k < clock w1 + m \<longrightarrow> fault w1 k = EINTR"
    using Suc(2) c by simp
  have b: "fault w1 (clock w1 + m) = e" using Suc(3) c by simp
  from Suc.IH [OF a b Suc(4) Suc(5)] obtain w' where
    r: "writeFully_loop fd nbyte remaining buf w1 = Some (- 1, w')" "errno w' = e"
      "wlog w' = wlog w1" by blast
  have "writeFully_loop fd nbyte remaining buf w = Some (- 1, w')"
    using sw c r(1) by (subst writeFully_loop.simps) simp
  then show ?case using r c by simp
qed

lemma readFully_loop_error:
  assumes "\<forall>k. clock w \<le> k \<and> k < clock w + m \<longrightarrow> fault w k = EINTR"
    and "fault w (clock w + m) = e" and "e \<noteq> 0" and "e \<noteq> EINTR"
  shows "\<exists>w'. readFully_loop fd nbyte remaining got w = Some (- 1, got, w') \<and> errno w' = e \<and>
              pending w' = pending w"
  using assms
proof (induction m arbitrary: w)
  case 0
  obtain n bs w1 where sr: "sys_read fd (nat remaining) w = (n, bs, w1)"
    by (cases "sys_read fd (nat remaining) w") auto
  from 0 have f: "fault w (clock w) = e" by simp
  from sys_read_cases [OF sr] f 0(3) have c: "n = - 1" "errno w1 = e" "pending w1 = pending w"
    by auto
  show ?case using sr c 0(4) by (subst readFully_loop.simps) simp
next
  case (Suc m)
  obtain n bs w1 where sr: "sys_read fd (nat remaining) w = (n, bs, w1)"
    by (cases "sys_read fd (nat remaining) w") auto
  from Suc(2) have f: "fault w (clock w) = EINTR" by simp
  from sys_read_cases [OF sr] f
  have c: "n = - 1" "errno w1 = EINTR" "pending w1 = pending w" "clock w1 = Suc (clock w)"
    "fault w1 = fault w"
    by (auto simp: frame_rd_def)
  have a: "\<forall>k. clock w1 \<le> k \<and> k < clock w1 + m \<longrightarrow> fault w1 k = EINTR"
    using Suc(2) c by simp
  have b: "fault w1 (clock w1 + m) = e" using Suc(3) c by simp
  from Suc.IH [OF a b Suc(4) Suc(5)] obtain w' where
    r: "readFully_loop fd nbyte remaining got w1 = Some (- 1, got, w')" "errno w' = e"
      "pending w' = pending w1" by blast
  have "readFully_loop fd nbyte remaining got w = Some (- 1, got, w')"
    using sr c r(1) by (subst readFully_loop.simps) simp
  then show ?case using r c by simp
qed

lemma writeFully_transfers:
  assumes op: "is_open w fd" and fl: "\<forall>k\<ge>clock w. fault w k = 0 \<or> fault w k = EINTR"
    and q: "quiet w" and n0: "0 < nbyte" and nb: "nbyte \<le> length buf"
  shows "\<exists>w'. writeFully fd buf nbyte w = Some (int nbyte, w') \<and>
              wlog w' = wlog w @ map (Pair (chan w fd)) (take nbyte buf)"
proof -
  from writeFully_total [OF q] obtain r w' where wf: "writeFully fd buf nbyte w = Some (r, w')"
    by fastforce
  have r: "r = int nbyte"
    using writeFully_loop_complete [of fd nbyte "int nbyte" buf w "(r, w')"] wf op fl n0 nb
    by (simp add: writeFully_def)
  with writeFully_Some [OF wf] show ?thesis using wf by auto
qed

lemma readFully_transfers:
  assumes op: "is_open w fd" and fl: "\<forall>k\<ge>clock w. fault w k = 0 \<or> fault w k = EINTR"
    and q: "quiet w"
  shows "\<exists>w'. readFully fd nbyte w =
                Some (int (min nbyte (length (pending w (chan w fd)))),
                      take nbyte (pending w (chan w fd)), w') \<and>
              pending w' (chan w fd) = drop nbyte (pending w (chan w fd))"
proof -
  from q obtain N where "\<forall>k\<ge>N. fault w k \<noteq> EINTR" unfolding quiet_def by blast
  from readFully_loop_total [OF this] obtain y where
    rf: "readFully_loop fd nbyte (int nbyte) [] w = Some y" by fastforce
  from readFully_loop_complete [OF rf fl op]
  have "fst y = int (min nbyte (length (pending w (chan w fd))))"
    "fst (snd y) = take nbyte (pending w (chan w fd))"
    "pending (snd (snd y)) (chan w fd) = drop nbyte (pending w (chan w fd))"
    by simp_all
  then show ?thesis using rf by (cases y) (auto simp: readFully_def)
qed

lemma childProcess_stuck:
  assumes "sendAlivePing p \<noteq> 0" and "\<forall>k\<ge>clock w. fault w k = EINTR"
  shows "childProcess p w = None"
  using assms writeFully_loop_forever [of w "fail1 p" sizeof_int "int sizeof_int" "int_bytes CHILD_IS_ALIVE"]
  by (simp add: childProcess_unfold stage_then_def childProcess_alive_def writeFully_def)

end
